theory Spec2Isabelle
  imports Main
begin

section \<open>Text: code points, whitespace, lines\<close>

text \<open>
  A Python \<open>str\<close> is a sequence of Unicode code points. The source relies on two
  characters outside ASCII (the bullet U+2022 and the en dash U+2013), so a character is
  modelled by its code point, a natural number, and a string by a list of them.
  \<open>str\<close> turns an ASCII literal into such a list.
\<close>

type_synonym pystr = "nat list"

definition str :: "string \<Rightarrow> pystr" where
  "str s = map of_char s"

definition en_dash :: nat where
  "en_dash = 8211"

definition bullet :: nat where
  "bullet = 8226"

text \<open>
  The classes \<open>\d\<close> and \<open>\w\<close> of \<open>re\<close> on \<open>str\<close> patterns, and \<open>int()\<close>, follow the
  Unicode character database of the interpreter. Their ASCII part is written out below;
  the part beyond ASCII is a table the repository does not contain, taken as the
  parameter \<open>db\<close>: \<open>uni_decimal db c\<close> is the digit value of a non-ASCII decimal digit,
  \<open>uni_alnum db c\<close> says that a non-ASCII code point is alphanumeric.
\<close>

record ucd =
  uni_decimal :: "nat \<Rightarrow> nat option"
  uni_alnum :: "nat \<Rightarrow> bool"

definition ascii_ucd :: ucd where
  "ascii_ucd = \<lparr>uni_decimal = (\<lambda>c. None), uni_alnum = (\<lambda>c. False)\<rparr>"

text \<open>
  Whitespace as \<open>str.strip()\<close> and \<open>\s\<close> see it: the code points for which
  \<open>str.isspace()\<close> holds.
\<close>

definition is_space :: "nat \<Rightarrow> bool" where
  "is_space c \<longleftrightarrow>
     (9 \<le> c \<and> c \<le> 13) \<or> (28 \<le> c \<and> c \<le> 32) \<or> c = 133 \<or> c = 160 \<or> c = 5760 \<or>
     (8192 \<le> c \<and> c \<le> 8202) \<or> c = 8232 \<or> c = 8233 \<or> c = 8239 \<or> c = 8287 \<or>
     c = 12288"

definition digit_of :: "ucd \<Rightarrow> nat \<Rightarrow> nat option" where
  "digit_of db c =
     (if 48 \<le> c \<and> c \<le> 57 then Some (c - 48)
      else if 128 \<le> c then uni_decimal db c
      else None)"

definition is_decimal :: "ucd \<Rightarrow> nat \<Rightarrow> bool" where
  "is_decimal db c \<longleftrightarrow> digit_of db c \<noteq> None"

definition is_word :: "ucd \<Rightarrow> nat \<Rightarrow> bool" where
  "is_word db c \<longleftrightarrow>
     (48 \<le> c \<and> c \<le> 57) \<or> (65 \<le> c \<and> c \<le> 90) \<or> c = 95 \<or> (97 \<le> c \<and> c \<le> 122) \<or>
     (128 \<le> c \<and> (uni_alnum db c \<or> uni_decimal db c \<noteq> None))"

text \<open>
  The tables of a real interpreter give every decimal digit a value from 0 to 9 and
  never classify a digit as whitespace.
\<close>

definition ucd_ok :: "ucd \<Rightarrow> bool" where
  "ucd_ok db \<longleftrightarrow> (\<forall>c v. uni_decimal db c = Some v \<longrightarrow> v \<le> 9 \<and> \<not> is_space c)"

definition strip :: "pystr \<Rightarrow> pystr" where
  "strip s = rev (dropWhile is_space (rev (dropWhile is_space s)))"

text \<open>
  \<open>str.lower()\<close>, on the ASCII letters: the source lowers only text that matched
  \<open>am|pm\<close> under \<open>re.IGNORECASE\<close>, and the only code points that match \<open>a\<close>, \<open>m\<close> or
  \<open>p\<close> there are these letters and their capitals.
\<close>

definition lower_char :: "nat \<Rightarrow> nat" where
  "lower_char c = (if 65 \<le> c \<and> c \<le> 90 then c + 32 else c)"

definition lower :: "pystr \<Rightarrow> pystr" where
  "lower s = map lower_char s"

text \<open>\<open>str.splitlines()\<close>: the line boundaries of Python, \<open>\r\n\<close> counting as one.\<close>

definition is_linebreak :: "nat \<Rightarrow> bool" where
  "is_linebreak c \<longleftrightarrow>
     (10 \<le> c \<and> c \<le> 13) \<or> (28 \<le> c \<and> c \<le> 30) \<or> c = 133 \<or> c = 8232 \<or> c = 8233"

fun splitlines_from :: "pystr \<Rightarrow> pystr \<Rightarrow> pystr list" where
  "splitlines_from cur [] = (if cur = [] then [] else [cur])"
| "splitlines_from cur [x] =
     (if is_linebreak x then [cur] else [cur @ [x]])"
| "splitlines_from cur (x # y # s) =
     (if x = 13 \<and> y = 10 then cur # splitlines_from [] s
      else if is_linebreak x then cur # splitlines_from [] (y # s)
      else splitlines_from (cur @ [x]) (y # s))"

definition splitlines :: "pystr \<Rightarrow> pystr list" where
  "splitlines s = splitlines_from [] s"

text \<open>\<open>t.split(':')\<close>: the pieces between the occurrences of a separator character.\<close>

fun split_on :: "nat \<Rightarrow> pystr \<Rightarrow> pystr \<Rightarrow> pystr list" where
  "split_on sep cur [] = [cur]"
| "split_on sep cur (x # s) =
     (if x = sep then cur # split_on sep [] s else split_on sep (cur @ [x]) s)"

section \<open>Errors, integers and their formatting\<close>

datatype py_error = IndexError | ValueError | TypeError | OverflowError | AttributeError

text \<open>
  \<open>int(s)\<close> on a run of decimal digits. Python's \<open>int\<close> also accepts signs, blanks and
  underscores; the source passes it only text captured by \<open>\d\<close>, so every other string
  is the model's \<open>ValueError\<close>.
\<close>

definition digits_value :: "nat list \<Rightarrow> nat" where
  "digits_value ds = foldl (\<lambda>acc d. 10 * acc + d) 0 ds"

definition py_int :: "ucd \<Rightarrow> pystr \<Rightarrow> py_error + int" where
  "py_int db s =
     (if s \<noteq> [] \<and> (\<forall>c \<in> set s. is_decimal db c)
      then Inr (int (digits_value (map (\<lambda>c. case digit_of db c of Some v \<Rightarrow> v | None \<Rightarrow> 0) s)))
      else Inl ValueError)"

text \<open>The format \<open>{n:02d}\<close>: decimal, padded with zeros to two characters.\<close>

fun dec :: "nat \<Rightarrow> pystr" where
  "dec n = (if n < 10 then [48 + n] else dec (n div 10) @ [48 + n mod 10])"

declare dec.simps [simp del]

definition fmt02 :: "int \<Rightarrow> pystr" where
  "fmt02 i =
     (if i < 0 then 45 # dec (nat (- i))
      else if i < 10 then 48 # dec (nat i)
      else dec (nat i))"

section \<open>Regular expressions\<close>

text \<open>
  The patterns of the source use literals, the classes \<open>\d\<close>, \<open>\s\<close>, \<open>\w\<close> and \<open>.\<close>
  under bounded or unbounded greedy repetition, sequence, alternation, optional parts,
  capturing groups and the anchor \<open>^\<close>. \<open>Rep k lo hi\<close> is \<open>k{lo,hi}\<close> (no upper bound when
  \<open>hi\<close> is \<open>None\<close>), \<open>LitI\<close> a literal under \<open>re.IGNORECASE\<close>.
\<close>

datatype cclass = Digit | Space | Word | Dot

fun in_class :: "ucd \<Rightarrow> cclass \<Rightarrow> nat \<Rightarrow> bool" where
  "in_class db Digit c = is_decimal db c"
| "in_class db Space c = is_space c"
| "in_class db Word c = is_word db c"
| "in_class db Dot c = (c \<noteq> 10)"

datatype re =
    Lit pystr
  | LitI pystr
  | Rep cclass nat "nat option"
  | Bol
  | Seq re re
  | Alt re re
  | Opt re
  | Grp nat re

text \<open>
  A backtracking matcher as a list of successes. A state is the position in the subject,
  the text still ahead and the groups captured so far; \<open>ms\<close> lists the states in
  which a pattern can end, in the order in which Python's engine tries them (greedy
  repetition longest first, the left alternative first, an optional part before its
  absence). The engine's match is the first of the list.
\<close>

type_synonym captures = "nat \<rightharpoonup> pystr"
type_synonym mstate = "nat \<times> pystr \<times> captures"

fun ms :: "ucd \<Rightarrow> re \<Rightarrow> mstate \<Rightarrow> mstate list" where
  "ms db (Lit w) (p, s, c) =
     (if take (length w) s = w then [(p + length w, drop (length w) s, c)] else [])"
| "ms db (LitI w) (p, s, c) =
     (if lower (take (length w) s) = w then [(p + length w, drop (length w) s, c)] else [])"
| "ms db (Rep k lo hi) (p, s, c) =
     (let n = length (takeWhile (in_class db k) s);
          mx = (case hi of None \<Rightarrow> n | Some h \<Rightarrow> min h n)
      in map (\<lambda>j. (p + j, drop j s, c)) (rev [lo ..< Suc mx]))"
| "ms db Bol (p, s, c) = (if p = 0 then [(p, s, c)] else [])"
| "ms db (Seq a b) st = concat (map (ms db b) (ms db a st))"
| "ms db (Alt a b) st = ms db a st @ ms db b st"
| "ms db (Opt a) st = ms db a st @ [st]"
| "ms db (Grp g a) (p, s, c) =
     map (\<lambda>(p', s', c'). (p', s', c'(g \<mapsto> take (p' - p) s))) (ms db a (p, s, c))"

text \<open>\<open>re.match\<close>: the first way to match at the start of the subject, if any.\<close>

definition re_match :: "ucd \<Rightarrow> re \<Rightarrow> pystr \<Rightarrow> mstate option" where
  "re_match db r s = (case ms db r (0, s, Map.empty) of [] \<Rightarrow> None | st # _ \<Rightarrow> Some st)"

text \<open>
  \<open>re.split\<close> for a pattern without groups, and \<open>re.sub\<close> with the empty replacement:
  scan from the left, take the first match at the leftmost position that has one, go on
  after it. None of the source's patterns matches the empty string; an empty match is
  passed over.
\<close>

function re_split_from :: "ucd \<Rightarrow> re \<Rightarrow> nat \<Rightarrow> pystr \<Rightarrow> pystr \<Rightarrow> pystr list" where
  "re_split_from db r p cur [] = [cur]"
| "re_split_from db r p cur (x # s) =
     (case ms db r (p, x # s, Map.empty) of
        [] \<Rightarrow> re_split_from db r (Suc p) (cur @ [x]) s
      | (p', s', c') # _ \<Rightarrow>
          if length s' < length (x # s) then cur # re_split_from db r p' [] s'
          else re_split_from db r (Suc p) (cur @ [x]) s)"
  by pat_completeness auto
termination
  by (relation "measure (\<lambda>(db, r, p, cur, s). length s)") auto

definition re_split :: "ucd \<Rightarrow> re \<Rightarrow> pystr \<Rightarrow> pystr list" where
  "re_split db r s = re_split_from db r 0 [] s"

function re_sub_from :: "ucd \<Rightarrow> re \<Rightarrow> nat \<Rightarrow> pystr \<Rightarrow> pystr" where
  "re_sub_from db r p [] = []"
| "re_sub_from db r p (x # s) =
     (case ms db r (p, x # s, Map.empty) of
        [] \<Rightarrow> x # re_sub_from db r (Suc p) s
      | (p', s', c') # _ \<Rightarrow>
          if length s' < length (x # s) then re_sub_from db r p' s'
          else x # re_sub_from db r (Suc p) s)"
  by pat_completeness auto
termination
  by (relation "measure (\<lambda>(db, r, p, s). length s)") auto

definition re_sub_empty :: "ucd \<Rightarrow> re \<Rightarrow> pystr \<Rightarrow> pystr" where
  "re_sub_empty db r s = re_sub_from db r 0 s"

section \<open>The time range parser\<close>

text \<open>
  \<open>(\d{1,2}(:\d{2})?)\s*(am|pm)?\s*(?:-\s*(\d{1,2}(:\d{2})?)\s*(am|pm)?)?\<close>,
  matched with \<open>re.IGNORECASE\<close>; groups 1 to 6 in the order of their opening brackets.
\<close>

definition clock :: "nat \<Rightarrow> nat \<Rightarrow> re" where
  "clock g g' = Grp g (Seq (Rep Digit 1 (Some 2)) (Opt (Grp g' (Seq (Lit (str '':'')) (Rep Digit 2 (Some 2))))))"

definition ampm :: "nat \<Rightarrow> re" where
  "ampm g = Opt (Grp g (Alt (LitI (str ''am'')) (LitI (str ''pm''))))"

definition time_pattern :: re where
  "time_pattern =
     Seq (clock 1 2) (Seq (Rep Space 0 None) (Seq (ampm 3) (Seq (Rep Space 0 None)
       (Opt (Seq (Lit (str ''-'')) (Seq (Rep Space 0 None)
          (Seq (clock 4 5) (Seq (Rep Space 0 None) (ampm 6)))))))))"

definition truthy :: "pystr option \<Rightarrow> bool" where
  "truthy x = (case x of None \<Rightarrow> False | Some s \<Rightarrow> s \<noteq> [])"

definition to_24h :: "ucd \<Rightarrow> pystr \<Rightarrow> pystr option \<Rightarrow> py_error + pystr" where
  "to_24h db t0 marker =
     (let t = strip t0;
          t = (if 58 \<in> set t then t else t @ str '':00'')
      in case split_on 58 [] t of
           [a, b] \<Rightarrow>
             (case py_int db a of
                Inl e \<Rightarrow> Inl e
              | Inr h \<Rightarrow>
                  (case py_int db b of
                     Inl e \<Rightarrow> Inl e
                   | Inr m \<Rightarrow>
                       (let h = (if truthy marker \<and> lower (the marker) = str ''pm'' \<and> h \<noteq> 12
                                 then h + 12 else h);
                            h = (if truthy marker \<and> lower (the marker) = str ''am'' \<and> h = 12
                                 then 0 else h)
                        in Inr (fmt02 h @ str '':'' @ fmt02 m))))
         | _ \<Rightarrow> Inl ValueError)"

definition parse_time_range :: "ucd \<Rightarrow> pystr \<Rightarrow> py_error + (pystr option \<times> pystr option)" where
  "parse_time_range db text0 =
     (let text = map (\<lambda>c. if c = en_dash then 45 else c) text0
      in case re_match db time_pattern (strip text) of
           None \<Rightarrow> Inr (None, None)
         | Some (p, rest, g) \<Rightarrow>
             (case g 1 of
                None \<Rightarrow> Inl AttributeError
              | Some start \<Rightarrow>
                  (case to_24h db start (g 3) of
                     Inl e \<Rightarrow> Inl e
                   | Inr start24 \<Rightarrow>
                       if truthy (g 4) then
                         (case to_24h db (the (g 4)) (g 6) of
                            Inl e \<Rightarrow> Inl e
                          | Inr end24 \<Rightarrow> Inr (Some start24, Some end24))
                       else Inr (Some start24, None))))"

section \<open>Calendar dates\<close>

record date =
  dt_year :: int
  dt_month :: int
  dt_day :: int

definition is_leap :: "int \<Rightarrow> bool" where
  "is_leap y \<longleftrightarrow> y mod 4 = 0 \<and> (y mod 100 \<noteq> 0 \<or> y mod 400 = 0)"

definition days_in_month :: "int \<Rightarrow> int \<Rightarrow> int" where
  "days_in_month y m =
     (if m = 2 then (if is_leap y then 29 else 28)
      else if m = 4 \<or> m = 6 \<or> m = 9 \<or> m = 11 then 30
      else 31)"

definition valid_date :: "int \<Rightarrow> int \<Rightarrow> int \<Rightarrow> bool" where
  "valid_date y m d \<longleftrightarrow>
     1 \<le> y \<and> y \<le> 9999 \<and> 1 \<le> m \<and> m \<le> 12 \<and> 1 \<le> d \<and> d \<le> days_in_month y m"

definition fits_c_int :: "int \<Rightarrow> bool" where
  "fits_c_int i \<longleftrightarrow> - 2147483648 \<le> i \<and> i \<le> 2147483647"

text \<open>
  The constructor \<open>datetime(year, month, day)\<close>. Its arguments are converted to C
  integers first (\<open>OverflowError\<close>, or \<open>TypeError\<close> for \<open>None\<close>), then checked
  (\<open>ValueError\<close>). The month is \<open>None\<close> when the month prompt was cancelled.
\<close>

definition datetime :: "int \<Rightarrow> int option \<Rightarrow> int \<Rightarrow> py_error + date" where
  "datetime y mo d =
     (if \<not> fits_c_int y then Inl OverflowError
      else case mo of
             None \<Rightarrow> Inl TypeError
           | Some m \<Rightarrow>
               if \<not> fits_c_int m \<or> \<not> fits_c_int d then Inl OverflowError
               else if valid_date y m d then Inr \<lparr>dt_year = y, dt_month = m, dt_day = d\<rparr>
               else Inl ValueError)"

text \<open>\<open>+ timedelta(days=1)\<close> on a valid date.\<close>

definition plus_one_day :: "date \<Rightarrow> py_error + date" where
  "plus_one_day d =
     (if dt_day d < days_in_month (dt_year d) (dt_month d) then Inr (d\<lparr>dt_day := dt_day d + 1\<rparr>)
      else if dt_month d < 12 then Inr \<lparr>dt_year = dt_year d, dt_month = dt_month d + 1, dt_day = 1\<rparr>
      else if dt_year d < 9999 then Inr \<lparr>dt_year = dt_year d + 1, dt_month = 1, dt_day = 1\<rparr>
      else Inl OverflowError)"

section \<open>The schedule parser\<close>

text \<open>
  The dictionary of an event, one field per key. \<open>Start_Date\<close> and \<open>End_Date\<close> hold the
  date whose rendering \<open>strftime("%m/%d/%Y")\<close> the dictionary holds; an \<open>End_Date\<close> of
  \<open>None\<close> is the empty string.
\<close>

record event =
  Subject :: pystr
  Start_Date :: date
  Start_Time :: pystr
  End_Date :: "date option"
  End_Time :: pystr
  All_Day_Event :: pystr
  Description :: pystr
  Location :: pystr

text \<open>
  The two dialogs the parser opens: \<open>simpledialog.askinteger\<close> for the month, and
  \<open>messagebox.showwarning\<close> with the month, day and year of the invalid date and the
  corrected date. The answer to the month prompt is a parameter of the parser:
  an integer, or \<open>None\<close> when the dialog is cancelled.
\<close>

datatype ui_call = AskInteger | ShowWarning int int int date

record pstate =
  current_date :: "date option"
  last_day :: "int option"
  events :: "event list"
  ui :: "ui_call list"

text \<open>\<open>(Jan|Feb|Mar|Apr|May|Jun|Jul|Aug|Sep|Oct|Nov|Dec)\<close>\<close>

definition month_names :: "pystr list" where
  "month_names =
     [str ''Jan'', str ''Feb'', str ''Mar'', str ''Apr'', str ''May'', str ''Jun'',
      str ''Jul'', str ''Aug'', str ''Sep'', str ''Oct'', str ''Nov'', str ''Dec'']"

definition month_pattern :: re where
  "month_pattern = Grp 1 (foldr (\<lambda>n r. Alt (Lit n) r) (butlast month_names) (Lit (last month_names)))"

text \<open>\<open>datetime.strptime(name, "%b").month\<close>, in the C locale.\<close>

fun index_of :: "pystr \<Rightarrow> pystr list \<Rightarrow> int \<Rightarrow> int option" where
  "index_of x [] i = None"
| "index_of x (y # ys) i = (if x = y then Some i else index_of x ys (i + 1))"

definition strptime_month :: "pystr \<Rightarrow> py_error + int" where
  "strptime_month name =
     (case index_of name month_names 1 of None \<Rightarrow> Inl ValueError | Some m \<Rightarrow> Inr m)"

text \<open>Lines 56 to 60: the start month, from the first line or from the prompt.\<close>

definition detect_month :: "ucd \<Rightarrow> int option \<Rightarrow> pystr \<Rightarrow> py_error + (int option \<times> ui_call list)" where
  "detect_month db answer line0 =
     (case re_match db month_pattern (strip line0) of
        None \<Rightarrow> Inr (answer, [AskInteger])
      | Some (p, rest, g) \<Rightarrow>
          (case g 1 of
             None \<Rightarrow> Inl TypeError
           | Some name \<Rightarrow>
               (case strptime_month name of
                  Inl e \<Rightarrow> Inl e
                | Inr m \<Rightarrow> Inr (Some m, []))))"

text \<open>\<open>(\d{1,2})\s+\w+(.*)\<close>\<close>

definition day_pattern :: re where
  "day_pattern =
     Seq (Grp 1 (Rep Digit 1 (Some 2))) (Seq (Rep Space 1 None) (Seq (Rep Word 1 None)
       (Grp 2 (Rep Dot 0 None))))"

text \<open>
  Lines 68 to 71: whether a stripped line is a day header, and then its day number and
  its stripped trailing text.
\<close>

definition day_header :: "ucd \<Rightarrow> pystr \<Rightarrow> (py_error + (int \<times> pystr)) option" where
  "day_header db line =
     (case re_match db day_pattern line of
        None \<Rightarrow> None
      | Some (p, rest, g) \<Rightarrow>
          Some (case g 1 of
                  None \<Rightarrow> Inl TypeError
                | Some ds \<Rightarrow>
                    (case py_int db ds of
                       Inl e \<Rightarrow> Inl e
                     | Inr day \<Rightarrow>
                         (case g 2 of
                            None \<Rightarrow> Inl AttributeError
                          | Some tr \<Rightarrow> Inr (day, strip tr)))))"

text \<open>
  Lines 72 to 78: the month of a header. It starts from the start month at every header;
  \<open>if last_day and day < last_day\<close> is false for \<open>None\<close> and for 0.
\<close>

definition working_month :: "int option \<Rightarrow> int option \<Rightarrow> int \<Rightarrow> py_error + int option" where
  "working_month start_month prev day =
     (if (case prev of None \<Rightarrow> False | Some l \<Rightarrow> l \<noteq> 0 \<and> day < l)
      then (case start_month of
              None \<Rightarrow> Inl TypeError
            | Some m \<Rightarrow> Inr (Some (if m + 1 > 12 then 1 else m + 1)))
      else Inr start_month)"

text \<open>
  Lines 82 to 89: the date of a header with the dialogs it opens. Only \<open>ValueError\<close> is
  caught, and the handler's own \<open>datetime(year, month, 28)\<close> is not guarded.
\<close>

definition resolve_date :: "int \<Rightarrow> int option \<Rightarrow> int \<Rightarrow> py_error + (date \<times> ui_call list)" where
  "resolve_date y mo d =
     (case datetime y mo d of
        Inr dt \<Rightarrow> Inr (dt, [])
      | Inl ValueError \<Rightarrow>
          (case datetime y mo 28 of
             Inl e \<Rightarrow> Inl e
           | Inr d28 \<Rightarrow>
               (case plus_one_day d28 of
                  Inl e \<Rightarrow> Inl e
                | Inr corrected \<Rightarrow>
                    Inr (corrected, [ShowWarning (the mo) d y corrected])))
      | Inl e \<Rightarrow> Inl e)"

text \<open>\<open>\<bullet>|\s{2,}\<close>, the bullet being U+2022.\<close>

definition split_pattern :: re where
  "split_pattern = Alt (Lit [bullet]) (Rep Space 2 None)"

text \<open>
  \<open>^(\d{1,2}(:\d{2})?\s*(am|pm)?\s*-?\s*\d{0,2}(:\d{2})?\s*(am|pm)?)\s*\<close>,
  the pattern whose match is removed from an item to give the description.
\<close>

definition colon_minutes :: "nat \<Rightarrow> re" where
  "colon_minutes g = Opt (Grp g (Seq (Lit (str '':'')) (Rep Digit 2 (Some 2))))"

definition strip_pattern :: re where
  "strip_pattern =
     Seq Bol (Seq
       (Grp 1 (Seq (Rep Digit 1 (Some 2)) (Seq (colon_minutes 2) (Seq (Rep Space 0 None)
          (Seq (ampm 3) (Seq (Rep Space 0 None) (Seq (Opt (Lit (str ''-'')))
            (Seq (Rep Space 0 None) (Seq (Rep Digit 0 (Some 2)) (Seq (colon_minutes 4)
              (Seq (Rep Space 0 None) (ampm 5))))))))))))
       (Rep Space 0 None))"

text \<open>Lines 106 to 120: the event of one stripped, non-empty item.\<close>

definition make_event :: "ucd \<Rightarrow> date \<Rightarrow> pystr \<Rightarrow> py_error + event" where
  "make_event db cur item =
     (case parse_time_range db item of
        Inl e \<Rightarrow> Inl e
      | Inr (start_time, end_time) \<Rightarrow>
          (let desc = strip (re_sub_empty db strip_pattern item);
               desc = (if desc = [] then item else desc)
           in Inr \<lparr>Subject = desc,
                   Start_Date = cur,
                   Start_Time = (if truthy start_time then the start_time else []),
                   End_Date = (if truthy end_time then Some cur else None),
                   End_Time = (if truthy end_time then the end_time else []),
                   All_Day_Event = (if \<not> truthy start_time then str ''True'' else str ''False''),
                   Description = [],
                   Location = []\<rparr>))"

text \<open>Lines 102 to 120: the loop over the items of a line.\<close>

fun add_events :: "ucd \<Rightarrow> date \<Rightarrow> pystr list \<Rightarrow> event list \<Rightarrow> py_error + event list" where
  "add_events db cur [] evs = Inr evs"
| "add_events db cur (item0 # items) evs =
     (let item = strip item0
      in if item = [] then add_events db cur items evs
         else case make_event db cur item of
                Inl e \<Rightarrow> Inl e
              | Inr ev \<Rightarrow> add_events db cur items (evs @ [ev]))"

text \<open>Lines 97 to 120: a line of events, dropped while there is no current date.\<close>

definition event_line :: "ucd \<Rightarrow> pstate \<Rightarrow> pystr \<Rightarrow> py_error + pstate" where
  "event_line db st line =
     (case current_date st of
        None \<Rightarrow> Inr st
      | Some cur \<Rightarrow>
          (case add_events db cur (re_split db split_pattern line) (events st) of
             Inl e \<Rightarrow> Inl e
           | Inr evs \<Rightarrow> Inr (st\<lparr>events := evs\<rparr>)))"

text \<open>Lines 63 to 120: the body of the loop over the lines.\<close>

definition step :: "ucd \<Rightarrow> int \<Rightarrow> int option \<Rightarrow> pstate \<Rightarrow> pystr \<Rightarrow> py_error + pstate" where
  "step db y start_month st line0 =
     (let line = strip line0
      in if line = [] \<or> take 1 line = str ''*'' then Inr st
         else case day_header db line of
                None \<Rightarrow> event_line db st line
              | Some (Inl e) \<Rightarrow> Inl e
              | Some (Inr (day, trailing)) \<Rightarrow>
                  (case working_month start_month (last_day st) day of
                     Inl e \<Rightarrow> Inl e
                   | Inr mo \<Rightarrow>
                       (case resolve_date y mo day of
                          Inl e \<Rightarrow> Inl e
                        | Inr (dt, notes) \<Rightarrow>
                            (let st' = st\<lparr>current_date := Some dt, last_day := Some day,
                                          ui := ui st @ notes\<rparr>
                             in if trailing = [] then Inr st'
                                else event_line db st' trailing))))"

fun run_lines :: "ucd \<Rightarrow> int \<Rightarrow> int option \<Rightarrow> pstate \<Rightarrow> pystr list \<Rightarrow> py_error + pstate" where
  "run_lines db y start_month st [] = Inr st"
| "run_lines db y start_month st (l # ls) =
     (case step db y start_month st l of
        Inl e \<Rightarrow> Inl e
      | Inr st' \<Rightarrow> run_lines db y start_month st' ls)"

text \<open>
  \<open>parse_schedule(text, year)\<close>, with the Unicode tables and the answer to the month
  prompt. It returns the events and the dialogs opened, or the exception that escapes.
\<close>

definition parse_schedule ::
  "ucd \<Rightarrow> int option \<Rightarrow> pystr \<Rightarrow> int \<Rightarrow> py_error + (event list \<times> ui_call list)" where
  "parse_schedule db answer text y =
     (case splitlines text of
        [] \<Rightarrow> Inl IndexError
      | line0 # rest \<Rightarrow>
          (case detect_month db answer line0 of
             Inl e \<Rightarrow> Inl e
           | Inr (start_month, asked) \<Rightarrow>
               (case run_lines db y start_month
                       \<lparr>current_date = None, last_day = None, events = [], ui = asked\<rparr>
                       (line0 # rest) of
                  Inl e \<Rightarrow> Inl e
                | Inr st \<Rightarrow> Inr (events st, ui st))))"

section \<open>What a pattern can match\<close>

text \<open>
  The language of a pattern, the texts a group can capture, and the groups that every
  match sets. They describe the matcher; the parser does not use them.
\<close>

fun lang :: "ucd \<Rightarrow> re \<Rightarrow> pystr set" where
  "lang db (Lit w) = {w}"
| "lang db (LitI w) = {u. lower u = w}"
| "lang db (Rep k lo hi) =
     {u. lo \<le> length u \<and> (case hi of None \<Rightarrow> True | Some h \<Rightarrow> length u \<le> h) \<and>
         (\<forall>c \<in> set u. in_class db k c)}"
| "lang db Bol = {[]}"
| "lang db (Seq a b) = {u @ v | u v. u \<in> lang db a \<and> v \<in> lang db b}"
| "lang db (Alt a b) = lang db a \<union> lang db b"
| "lang db (Opt a) = insert [] (lang db a)"
| "lang db (Grp g a) = lang db a"

fun group_lang :: "ucd \<Rightarrow> nat \<Rightarrow> re \<Rightarrow> pystr set" where
  "group_lang db g (Seq a b) = group_lang db g a \<union> group_lang db g b"
| "group_lang db g (Alt a b) = group_lang db g a \<union> group_lang db g b"
| "group_lang db g (Opt a) = group_lang db g a"
| "group_lang db g (Grp g' a) = (if g' = g then lang db a else {}) \<union> group_lang db g a"
| "group_lang db g r = {}"

fun sets_group :: "nat \<Rightarrow> re \<Rightarrow> bool" where
  "sets_group g (Grp g' a) = (g' = g \<or> sets_group g a)"
| "sets_group g (Seq a b) = (sets_group g a \<or> sets_group g b)"
| "sets_group g (Alt a b) = (sets_group g a \<and> sets_group g b)"
| "sets_group g r = False"

section \<open>Notions of the specification\<close>

text \<open>
  A time field as the parser builds it: an hour of at least two digits, a colon and a
  minute of two digits, the hour up to 111 and the minute up to 99.
\<close>

definition padded_time :: "pystr \<Rightarrow> bool" where
  "padded_time s \<longleftrightarrow>
     (\<exists>h m. 0 \<le> h \<and> h \<le> 111 \<and> 0 \<le> m \<and> m \<le> 99 \<and> s = fmt02 h @ str '':'' @ fmt02 m)"

text \<open>
  A zero-padded 24-hour clock time \<open>HH:MM\<close>: five characters, the hour from 00 to 23 and
  the minute from 00 to 59.
\<close>

definition hh_mm :: "pystr \<Rightarrow> bool" where
  "hh_mm s =
     (case s of
        [a, b, c, d, e] \<Rightarrow>
          48 \<le> a \<and> a \<le> 57 \<and> 48 \<le> b \<and> b \<le> 57 \<and> c = 58 \<and>
          48 \<le> d \<and> d \<le> 57 \<and> 48 \<le> e \<and> e \<le> 57 \<and>
          10 * (a - 48) + (b - 48) \<le> 23 \<and> 10 * (d - 48) + (e - 48) \<le> 59
      | _ \<Rightarrow> False)"

text \<open>The first line of a text that is not blank.\<close>

definition first_nonempty_line :: "pystr \<Rightarrow> pystr option" where
  "first_nonempty_line text = find (\<lambda>l. strip l \<noteq> []) (splitlines text)"

text \<open>
  The hour of the 12-hour conversion as the specification words it: with a marker, pm
  and an hour other than 12 add 12, am and hour 12 give 0; without one the hour stands.
\<close>

definition spec_hour24 :: "pystr option \<Rightarrow> int \<Rightarrow> int" where
  "spec_hour24 marker h =
     (case marker of
        None \<Rightarrow> h
      | Some a \<Rightarrow>
          if lower a = str ''pm'' \<and> h \<noteq> 12 then h + 12
          else if lower a = str ''am'' \<and> h = 12 then 0
          else h)"

text \<open>
  \<open>date.toordinal()\<close>: the number of the day, counted from 1 for the 1st of January of
  year 1. Python defines \<open>d + timedelta(days=1)\<close> as the date whose ordinal is one more.
\<close>

definition days_before_year :: "int \<Rightarrow> int" where
  "days_before_year y = 365 * (y - 1) + (y - 1) div 4 - (y - 1) div 100 + (y - 1) div 400"

definition days_before_month :: "int \<Rightarrow> int \<Rightarrow> int" where
  "days_before_month y m = sum_list (map (days_in_month y) [1 .. m - 1])"

definition toordinal :: "date \<Rightarrow> int" where
  "toordinal d =
     days_before_year (dt_year d) + days_before_month (dt_year d) (dt_month d) + dt_day d"

section \<open>Example inputs\<close>

text \<open>The state at the start of the loop when the month came from the first line.\<close>

definition fresh :: pstate where
  "fresh = \<lparr>current_date = None, last_day = None, events = [], ui = []\<rparr>"

text \<open>The end-to-end scenario of the specification and its two events.\<close>

definition scenario_text :: pystr where
  "scenario_text = str ''Jan 2026\<newline>23 Mon 10am-11am Practice\<newline>24 Tue  Game 7pm''"

definition practice_event :: event where
  "practice_event =
     \<lparr>Subject = str ''Practice'',
      Start_Date = \<lparr>dt_year = 2026, dt_month = 1, dt_day = 23\<rparr>,
      Start_Time = str ''10:00'',
      End_Date = Some \<lparr>dt_year = 2026, dt_month = 1, dt_day = 23\<rparr>,
      End_Time = str ''11:00'',
      All_Day_Event = str ''False'', Description = [], Location = []\<rparr>"

definition game_event :: event where
  "game_event =
     \<lparr>Subject = str ''Game 7pm'',
      Start_Date = \<lparr>dt_year = 2026, dt_month = 1, dt_day = 24\<rparr>,
      Start_Time = [], End_Date = None, End_Time = [],
      All_Day_Event = str ''True'', Description = [], Location = []\<rparr>"

section \<open>Evaluation\<close>

text \<open>The defining equations, for evaluating the parser on a given text by rewriting.\<close>

lemmas ev = str_def en_dash_def bullet_def ascii_ucd_def is_space_def digit_of_def
  is_decimal_def is_word_def strip_def lower_char_def lower_def is_linebreak_def splitlines_def
  digits_value_def py_int_def dec.simps fmt02_def re_match_def re_split_def re_sub_empty_def
  clock_def ampm_def time_pattern_def truthy_def to_24h_def parse_time_range_def is_leap_def
  days_in_month_def valid_date_def fits_c_int_def datetime_def plus_one_day_def month_names_def
  month_pattern_def strptime_month_def detect_month_def day_pattern_def day_header_def
  working_month_def resolve_date_def split_pattern_def colon_minutes_def strip_pattern_def
  make_event_def event_line_def step_def parse_schedule_def Let_def upt_rec

section \<open>The matcher stays within the pattern\<close>

lemma take_le_takeWhile:
  "j \<le> length (takeWhile P s) \<Longrightarrow> \<forall>c \<in> set (take j s). P c"
proof (induction s arbitrary: j)
  case Nil
  then show ?case by simp
next
  case (Cons x s)
  then show ?case by (cases j) (auto split: if_splits)
qed

lemma ms_lang:
  "(p', s', c') \<in> set (ms db r (p, s, c)) \<Longrightarrow>
     \<exists>u. s = u @ s' \<and> p' = p + length u \<and> u \<in> lang db r"
proof (induction r arbitrary: p s c p' s' c')
  case (Lit w)
  then show ?case
    by (auto split: if_splits) (metis append_take_drop_id length_take min.absorb2 nat_le_linear take_all)
next
  case (LitI w)
  then have h: "lower (take (length w) s) = w" "p' = p + length w" "s' = drop (length w) s"
    by (auto split: if_splits)
  then have "length (take (length w) s) = length w"
    by (metis length_map lower_def)
  with h show ?case
    by (intro exI[of _ "take (length w) s"]) auto
next
  case (Rep k lo hi)
  define n where "n = length (takeWhile (in_class db k) s)"
  define mx where "mx = (case hi of None \<Rightarrow> n | Some h \<Rightarrow> min h n)"
  from Rep have "(p', s', c') \<in> set (map (\<lambda>j. (p + j, drop j s, c)) (rev [lo ..< Suc mx]))"
    unfolding n_def mx_def by (simp add: Let_def)
  then obtain j where j: "j \<in> set (rev [lo ..< Suc mx])" "p' = p + j" "s' = drop j s"
    by auto
  have b: "lo \<le> j" "j \<le> mx" using j(1) by auto
  have mxn: "mx \<le> n" by (simp add: mx_def split: option.splits)
  have hi: "case hi of None \<Rightarrow> True | Some h \<Rightarrow> j \<le> h"
    using b(2) by (simp add: mx_def split: option.splits)
  have jn: "j \<le> length (takeWhile (in_class db k) s)"
    using b(2) mxn by (simp add: n_def)
  have "j \<le> length s"
    using jn length_takeWhile_le[of "in_class db k" s] by linarith
  then have len: "length (take j s) = j" by simp
  show ?case
    using j(2,3) b(1) hi len take_le_takeWhile[OF jn]
    by (intro exI[of _ "take j s"]) (auto split: option.splits)
next
  case Bol
  then show ?case by (auto split: if_splits)
next
  case (Seq a b)
  then obtain p1 s1 c1 where m: "(p1, s1, c1) \<in> set (ms db a (p, s, c))"
      "(p', s', c') \<in> set (ms db b (p1, s1, c1))"
    by auto
  from Seq.IH(1)[OF m(1)] obtain u where u: "s = u @ s1" "p1 = p + length u" "u \<in> lang db a"
    by blast
  from Seq.IH(2)[OF m(2)] obtain v where v: "s1 = v @ s'" "p' = p1 + length v" "v \<in> lang db b"
    by blast
  show ?case
    using u v by (intro exI[of _ "u @ v"]) auto
next
  case (Alt a b)
  show ?case
    using Alt.IH(1)[of p' s' c' p s c] Alt.IH(2)[of p' s' c' p s c] Alt.prems by auto
next
  case (Opt a)
  show ?case
    using Opt.IH[of p' s' c' p s c] Opt.prems by auto
next
  case (Grp g a)
  from Grp.prems obtain c1 where "(p', s', c1) \<in> set (ms db a (p, s, c))"
    by auto
  from Grp.IH[OF this] show ?case by simp
qed

lemma ms_group:
  "(p', s', c') \<in> set (ms db r (p, s, c)) \<Longrightarrow>
     c' g = c g \<or> (\<exists>u \<in> group_lang db g r. c' g = Some u)"
proof (induction r arbitrary: p s c p' s' c')
  case (Seq a b)
  then obtain p1 s1 c1 where m: "(p1, s1, c1) \<in> set (ms db a (p, s, c))"
      "(p', s', c') \<in> set (ms db b (p1, s1, c1))"
    by auto
  from Seq.IH(1)[OF m(1)] Seq.IH(2)[OF m(2)] show ?case by auto
next
  case (Alt a b)
  show ?case
    using Alt.IH(1)[of p' s' c' p s c] Alt.IH(2)[of p' s' c' p s c] Alt.prems by auto
next
  case (Opt a)
  show ?case
    using Opt.IH[of p' s' c' p s c] Opt.prems by auto
next
  case (Grp g' a)
  then obtain c1 where m: "(p', s', c1) \<in> set (ms db a (p, s, c))"
      "c' = c1(g' \<mapsto> take (p' - p) s)"
    by auto
  from ms_lang[OF m(1)] obtain u where u: "s = u @ s'" "p' = p + length u" "u \<in> lang db a"
    by blast
  then have "take (p' - p) s = u" by simp
  with Grp.IH[OF m(1)] m(2) u(3) show ?case by auto
qed (auto split: if_splits simp: Let_def)

lemma ms_keeps:
  "(p', s', c') \<in> set (ms db r (p, s, c)) \<Longrightarrow> c g \<noteq> None \<Longrightarrow> c' g \<noteq> None"
proof (induction r arbitrary: p s c p' s' c')
  case (Seq a b)
  then obtain p1 s1 c1 where m: "(p1, s1, c1) \<in> set (ms db a (p, s, c))"
      "(p', s', c') \<in> set (ms db b (p1, s1, c1))"
    by auto
  from Seq.IH(2)[OF m(2)] Seq.IH(1)[OF m(1) Seq.prems(2)] show ?case by simp
next
  case (Alt a b)
  show ?case
    using Alt.IH(1)[of p' s' c' p s c] Alt.IH(2)[of p' s' c' p s c] Alt.prems by auto
next
  case (Opt a)
  show ?case
    using Opt.IH[of p' s' c' p s c] Opt.prems by auto
next
  case (Grp g' a)
  then obtain c1 where m: "(p', s', c1) \<in> set (ms db a (p, s, c))"
      "c' = c1(g' \<mapsto> take (p' - p) s)"
    by auto
  from Grp.IH[OF m(1) Grp.prems(2)] m(2) show ?case by simp
qed (auto split: if_splits simp: Let_def)

lemma ms_sets:
  "(p', s', c') \<in> set (ms db r (p, s, c)) \<Longrightarrow> sets_group g r \<Longrightarrow> c' g \<noteq> None"
proof (induction r arbitrary: p s c p' s' c')
  case (Seq a b)
  then obtain p1 s1 c1 where m: "(p1, s1, c1) \<in> set (ms db a (p, s, c))"
      "(p', s', c') \<in> set (ms db b (p1, s1, c1))"
    by auto
  show ?case
  proof (cases "sets_group g b")
    case True
    from Seq.IH(2)[OF m(2) True] show ?thesis .
  next
    case False
    with Seq.prems(2) have "sets_group g a" by simp
    from ms_keeps[OF m(2) Seq.IH(1)[OF m(1) this]] show ?thesis .
  qed
next
  case (Alt a b)
  show ?case
    using Alt.IH(1)[of p' s' c' p s c] Alt.IH(2)[of p' s' c' p s c] Alt.prems by auto
next
  case (Grp g' a)
  then obtain c1 where m: "(p', s', c1) \<in> set (ms db a (p, s, c))"
      "c' = c1(g' \<mapsto> take (p' - p) s)"
    by auto
  show ?case
  proof (cases "g' = g")
    case True
    with m(2) show ?thesis by simp
  next
    case False
    with Grp.prems(2) have "sets_group g a" by simp
    from Grp.IH[OF m(1) this] m(2) show ?thesis by simp
  qed
qed auto

lemma re_match_mem:
  "re_match db r s = Some st \<Longrightarrow> st \<in> set (ms db r (0, s, Map.empty))"
  by (auto simp: re_match_def split: list.splits)

lemma re_match_lang:
  assumes "re_match db r s = Some (p, rest, g)"
  shows "\<exists>u. s = u @ rest \<and> u \<in> lang db r"
  using ms_lang[OF re_match_mem[OF assms]] by auto

lemma re_match_group:
  assumes "re_match db r s = Some (p, rest, g)"
  shows "g n = None \<or> (\<exists>u \<in> group_lang db n r. g n = Some u)"
  using ms_group[OF re_match_mem[OF assms], of n] by simp

lemma re_match_sets:
  assumes "re_match db r s = Some (p, rest, g)" "sets_group n r"
  shows "\<exists>u \<in> group_lang db n r. g n = Some u"
  using ms_sets[OF re_match_mem[OF assms(1)] assms(2)] re_match_group[OF assms(1), of n] by auto

section \<open>Digits, blanks and \<open>int()\<close>\<close>

lemma decimal_not_space: "ucd_ok db \<Longrightarrow> is_decimal db c \<Longrightarrow> \<not> is_space c"
  by (auto simp: ucd_ok_def is_decimal_def digit_of_def is_space_def split: if_splits)

lemma decimal_not_colon: "is_decimal db c \<Longrightarrow> c \<noteq> 58"
  by (auto simp: is_decimal_def digit_of_def split: if_splits)

lemma digit_of_le: "ucd_ok db \<Longrightarrow> digit_of db c = Some v \<Longrightarrow> v \<le> 9"
  by (auto simp: ucd_ok_def digit_of_def split: if_splits)

lemma dropWhile_hd: "s \<noteq> [] \<Longrightarrow> \<not> P (hd s) \<Longrightarrow> dropWhile P s = s"
  by (cases s) auto

lemma strip_id:
  assumes "s \<noteq> []" "\<not> is_space (hd s)" "\<not> is_space (last s)"
  shows "strip s = s"
proof -
  have a: "dropWhile is_space s = s"
    using assms(1,2) by (rule dropWhile_hd)
  have "rev s \<noteq> []" "\<not> is_space (hd (rev s))"
    using assms(1,3) by (simp_all add: hd_rev)
  then have "dropWhile is_space (rev s) = rev s"
    by (rule dropWhile_hd)
  with a show ?thesis by (simp add: strip_def)
qed

lemma py_int_digits:
  assumes "ucd_ok db" "u \<noteq> []" "length u \<le> 2" "\<forall>c \<in> set u. is_decimal db c"
  shows "\<exists>n. py_int db u = Inr n \<and> 0 \<le> n \<and> n \<le> 99"
proof -
  have v: "\<And>c. c \<in> set u \<Longrightarrow> (case digit_of db c of Some v \<Rightarrow> v | None \<Rightarrow> 0) \<le> 9"
    using digit_of_le[OF assms(1)] by (auto split: option.splits)
  from assms(2,3) consider a where "u = [a]" | a b where "u = [a, b]"
    by (cases u; cases "tl u"; cases "tl (tl u)") auto
  then show ?thesis
  proof cases
    case 1
    with assms(4) v[of a] show ?thesis by (simp add: py_int_def digits_value_def)
  next
    case 2
    with assms(4) v[of a] v[of b] show ?thesis by (simp add: py_int_def digits_value_def)
  qed
qed

lemma py_int_nonneg: "py_int db s = Inr n \<Longrightarrow> 0 \<le> n"
  by (auto simp: py_int_def split: if_splits)

lemma split_on_no_sep: "sep \<notin> set s \<Longrightarrow> split_on sep cur s = [cur @ s]"
  by (induction s arbitrary: cur) auto

lemma split_on_one_sep:
  "sep \<notin> set a \<Longrightarrow> sep \<notin> set b \<Longrightarrow> split_on sep cur (a @ sep # b) = [cur @ a, b]"
  by (induction a arbitrary: cur) (auto simp: split_on_no_sep[of _ _ "[]", simplified])

lemma dec_one: "n < 10 \<Longrightarrow> dec n = [48 + n]"
  by (simp add: dec.simps)

lemma dec_two: "10 \<le> n \<Longrightarrow> n \<le> 99 \<Longrightarrow> dec n = [48 + n div 10, 48 + n mod 10]"
  by (subst dec.simps) (simp add: dec_one)

lemma div_mod_99: "n \<le> 99 \<Longrightarrow> n div 10 \<le> 9 \<and> n mod 10 \<le> (9::nat)"
  by arith

lemma two_digits: "digits_value [n div 10, n mod 10] = n"
  by (simp add: digits_value_def)

lemma py_int_dec: "n \<le> 99 \<Longrightarrow> py_int db (dec n) = Inr (int n)"
proof (cases "n < 10")
  case True
  then show ?thesis
    by (simp add: dec_one py_int_def is_decimal_def digit_of_def digits_value_def)
next
  case False
  moreover assume "n \<le> 99"
  ultimately show ?thesis
    using div_mod_99[of n] by (simp add: dec_two py_int_def is_decimal_def digit_of_def two_digits)
qed

lemma fmt02_two: "m \<le> 99 \<Longrightarrow> fmt02 (int m) = [48 + m div 10, 48 + m mod 10]"
  by (cases "m < 10") (auto simp: fmt02_def dec_one dec_two)

lemma py_int_fmt02: "m \<le> 99 \<Longrightarrow> py_int db (fmt02 (int m)) = Inr (int m)"
  using div_mod_99[of m] by (simp add: fmt02_two py_int_def is_decimal_def digit_of_def two_digits)

lemma dec_shape:
  assumes "n \<le> 99"
  shows "dec n \<noteq> [] \<and> 58 \<notin> set (dec n) \<and> \<not> is_space (hd (dec n)) \<and> \<not> is_space (last (dec n))"
  using assms by (cases "n < 10") (auto simp: dec_one dec_two is_space_def)

section \<open>The time range parser never fails\<close>

lemma clock_lang_cases:
  assumes "t \<in> lang db (clock g g')"
  obtains (bare) "t \<noteq> []" "length t \<le> 2" "\<forall>c \<in> set t. is_decimal db c"
  | (minutes) ds mm where "t = ds @ 58 # mm" "ds \<noteq> []" "length ds \<le> 2"
      "\<forall>c \<in> set ds. is_decimal db c" "length mm = 2" "\<forall>c \<in> set mm. is_decimal db c"
  using assms by (auto simp: clock_def str_def Suc_le_eq)

lemma to_24h_digits:
  assumes ok: "ucd_ok db"
    and ds: "ds \<noteq> []" "length ds \<le> 2" "\<forall>c \<in> set ds. is_decimal db c"
    and mm: "mm \<noteq> []" "length mm \<le> 2" "\<forall>c \<in> set mm. is_decimal db c"
    and sp: "split_on 58 [] (if 58 \<in> set (strip t) then strip t else strip t @ str '':00'') = [ds, mm]"
  shows "\<exists>h m. 0 \<le> h \<and> h \<le> 111 \<and> 0 \<le> m \<and> m \<le> 99 \<and>
           to_24h db t mk = Inr (fmt02 h @ str '':'' @ fmt02 m)"
proof -
  from py_int_digits[OF ok ds] obtain h where h: "py_int db ds = Inr h" "0 \<le> h" "h \<le> 99"
    by blast
  from py_int_digits[OF ok mm] obtain m where m: "py_int db mm = Inr m" "0 \<le> m" "m \<le> 99"
    by blast
  define h1 where "h1 = (if truthy mk \<and> lower (the mk) = str ''pm'' \<and> h \<noteq> 12 then h + 12 else h)"
  define h2 where "h2 = (if truthy mk \<and> lower (the mk) = str ''am'' \<and> h1 = 12 then 0 else h1)"
  have eq: "to_24h db t mk = Inr (fmt02 h2 @ str '':'' @ fmt02 m)"
    unfolding to_24h_def Let_def sp by (simp add: h(1) m(1) h1_def h2_def)
  have "0 \<le> h2" "h2 \<le> 111"
    using h(2,3) by (auto simp: h1_def h2_def)
  with eq m(2,3) show ?thesis by blast
qed

lemma to_24h_clock:
  assumes ok: "ucd_ok db" and t: "t \<in> lang db (clock g g')"
  shows "\<exists>h m. 0 \<le> h \<and> h \<le> 111 \<and> 0 \<le> m \<and> m \<le> 99 \<and>
           to_24h db t mk = Inr (fmt02 h @ str '':'' @ fmt02 m)"
  using t
proof (cases rule: clock_lang_cases)
  case bare
  have "\<not> is_space (hd t)" "\<not> is_space (last t)"
    using bare(1,3) decimal_not_space[OF ok] by auto
  then have st: "strip t = t" using bare(1) by (simp add: strip_id)
  have nc: "58 \<notin> set t" using bare(3) decimal_not_colon by blast
  have z: "\<forall>c \<in> set [48, 48::nat]. is_decimal db c"
    by (simp add: is_decimal_def digit_of_def)
  have "split_on 58 [] (if 58 \<in> set (strip t) then strip t else strip t @ str '':00'') = [t, [48, 48]]"
    using nc split_on_one_sep[of 58 t "[48, 48]" "[]"] unfolding st by (simp add: str_def)
  from to_24h_digits[OF ok bare _ _ z this] show ?thesis by simp
next
  case (minutes ds mm)
  have mm0: "mm \<noteq> []" using minutes(5) by auto
  have "\<not> is_space (hd t)" "\<not> is_space (last t)"
    using minutes(1,2,4,6) mm0 decimal_not_space[OF ok] by auto
  then have st: "strip t = t" using minutes(1) by (simp add: strip_id)
  have nc: "58 \<notin> set ds" "58 \<notin> set mm" using minutes(4,6) decimal_not_colon by blast+
  have "split_on 58 [] (if 58 \<in> set (strip t) then strip t else strip t @ str '':00'') = [ds, mm]"
    using nc split_on_one_sep[of 58 ds mm "[]"] unfolding st by (simp add: minutes(1))
  from to_24h_digits[OF ok minutes(2,3,4) mm0 _ minutes(6) this] minutes(5) show ?thesis by simp
qed

lemma to_24h_eval:
  assumes "split_on 58 [] (if 58 \<in> set (strip t) then strip t else strip t @ str '':00'') = [a, b]"
    and "py_int db a = Inr h" "py_int db b = Inr m"
  shows "to_24h db t mk = Inr (fmt02 (spec_hour24 mk h) @ str '':'' @ fmt02 m)"
  unfolding to_24h_def Let_def assms(1)
  by (auto simp: assms(2,3) spec_hour24_def truthy_def str_def lower_def split: option.splits)

lemma time_pattern_groups:
  "sets_group 1 time_pattern"
  "group_lang db 1 time_pattern = lang db (clock 1 2)"
  "group_lang db 4 time_pattern = lang db (clock 4 5)"
  by (simp_all add: time_pattern_def clock_def ampm_def)

lemma to_24h_padded:
  assumes "ucd_ok db" "t \<in> lang db (clock g g')"
  shows "\<exists>s. to_24h db t mk = Inr s \<and> padded_time s"
  using to_24h_clock[OF assms, of mk] unfolding padded_time_def by blast

lemma parse_time_range_ok:
  assumes ok: "ucd_ok db"
  shows "\<exists>a b. parse_time_range db item = Inr (a, b) \<and>
           (\<forall>s. a = Some s \<longrightarrow> padded_time s) \<and> (\<forall>s. b = Some s \<longrightarrow> padded_time s)"
proof (cases "re_match db time_pattern (strip (map (\<lambda>c. if c = en_dash then 45 else c) item))")
  case None
  then show ?thesis by (simp add: parse_time_range_def)
next
  case (Some st)
  obtain p rest g where st: "st = (p, rest, g)" by (cases st)
  note m = Some[unfolded st]
  from re_match_sets[OF m time_pattern_groups(1)]
  obtain t where t: "g 1 = Some t" "t \<in> lang db (clock 1 2)"
    unfolding time_pattern_groups(2) by blast
  from to_24h_padded[OF ok t(2), of "g 3"]
  obtain s1 where s1: "to_24h db t (g 3) = Inr s1" "padded_time s1" by blast
  show ?thesis
  proof (cases "truthy (g 4)")
    case False
    then show ?thesis
      using m t(1) s1 by (simp add: parse_time_range_def)
  next
    case True
    then have "g 4 \<noteq> None" by (auto simp: truthy_def split: option.splits)
    with re_match_group[OF m, of 4]
    obtain t' where t': "g 4 = Some t'" "t' \<in> lang db (clock 4 5)"
      unfolding time_pattern_groups(3) by blast
    from to_24h_padded[OF ok t'(2), of "g 6"]
    obtain s2 where s2: "to_24h db t' (g 6) = Inr s2" "padded_time s2" by blast
    show ?thesis
      using m t(1) s1 True t'(1) s2 by (simp add: parse_time_range_def)
  qed
qed

lemma parse_time_range_groups:
  assumes "re_match db time_pattern (strip (map (\<lambda>c. if c = en_dash then 45 else c) text)) =
             Some (p, rest, g)"
  shows "\<exists>start. g 1 = Some start \<and>
     parse_time_range db text =
       (case to_24h db start (g 3) of
          Inl e \<Rightarrow> Inl e
        | Inr start24 \<Rightarrow>
            (case g 4 of
               None \<Rightarrow> Inr (Some start24, None)
             | Some fin \<Rightarrow>
                 (case to_24h db fin (g 6) of
                    Inl e \<Rightarrow> Inl e
                  | Inr end24 \<Rightarrow> Inr (Some start24, Some end24))))"
proof -
  from re_match_sets[OF assms time_pattern_groups(1)]
  obtain t where t: "g 1 = Some t" by blast
  have e: "g 4 = None \<or> (\<exists>u. g 4 = Some u \<and> u \<noteq> [])"
  proof (cases "g 4")
    case None
    then show ?thesis by simp
  next
    case (Some u)
    with re_match_group[OF assms, of 4] have "u \<in> lang db (clock 4 5)"
      unfolding time_pattern_groups(3) by auto
    then have "u \<noteq> []" by (rule clock_lang_cases) auto
    with Some show ?thesis by simp
  qed
  show ?thesis
    using assms t e
    by (auto simp: parse_time_range_def truthy_def split: sum.splits option.splits)
qed

lemma make_event_ok:
  assumes "ucd_ok db"
  shows "\<exists>ev. make_event db cur item = Inr ev"
  using parse_time_range_ok[OF assms, of item]
  by (auto simp: make_event_def Let_def)

lemma add_events_ok:
  assumes "ucd_ok db"
  shows "\<exists>new. add_events db cur items evs = Inr (evs @ new)"
proof (induction items arbitrary: evs)
  case Nil
  then show ?case by simp
next
  case (Cons item0 items)
  show ?case
  proof (cases "strip item0 = []")
    case True
    with Cons[of evs] show ?thesis by simp
  next
    case False
    from make_event_ok[OF assms, of cur "strip item0"]
    obtain ev where ev: "make_event db cur (strip item0) = Inr ev" by blast
    from Cons[of "evs @ [ev]"] obtain new where
      "add_events db cur items (evs @ [ev]) = Inr (evs @ ev # new)" by auto
    with False ev show ?thesis by (simp add: Let_def)
  qed
qed

lemma event_line_ok:
  assumes "ucd_ok db"
  shows "\<exists>new. event_line db st line = Inr (st\<lparr>events := events st @ new\<rparr>)"
proof (cases "current_date st")
  case None
  then show ?thesis
    by (intro exI[of _ "[]"]) (simp add: event_line_def)
next
  case (Some cur)
  from add_events_ok[OF assms, of cur "re_split db split_pattern line" "events st"]
  obtain new where "add_events db cur (re_split db split_pattern line) (events st) = Inr (events st @ new)"
    by blast
  with Some show ?thesis by (intro exI[of _ new]) (simp add: event_line_def)
qed

section \<open>Day headers and the month of the first line\<close>

lemma day_pattern_groups:
  "sets_group 1 day_pattern" "sets_group 2 day_pattern"
  "group_lang db 1 day_pattern = lang db (Rep Digit 1 (Some 2))"
  by (simp_all add: day_pattern_def)

lemma day_header_nonneg: "day_header db line = Some (Inr (day, tr)) \<Longrightarrow> 0 \<le> day"
  by (auto simp: day_header_def split: option.splits sum.splits dest: py_int_nonneg)

lemma day_header_ok:
  assumes ok: "ucd_ok db" and h: "day_header db line = Some r"
  shows "\<exists>day tr. r = Inr (day, tr) \<and> 0 \<le> day \<and> day \<le> 99"
proof -
  from h obtain p rest g where m: "re_match db day_pattern line = Some (p, rest, g)"
    by (auto simp: day_header_def split: option.splits)
  from re_match_sets[OF m day_pattern_groups(1)]
  obtain ds where ds: "g 1 = Some ds" "ds \<in> lang db (Rep Digit 1 (Some 2))"
    unfolding day_pattern_groups(3) by blast
  from re_match_sets[OF m day_pattern_groups(2)]
  obtain tr where tr: "g 2 = Some tr" by auto
  from ds(2) have "ds \<noteq> []" "length ds \<le> 2" "\<forall>c \<in> set ds. is_decimal db c"
    by (auto simp: Suc_le_eq)
  from py_int_digits[OF ok this] obtain n where "py_int db ds = Inr n" "0 \<le> n" "n \<le> 99"
    by blast
  with h m ds(1) tr show ?thesis
    by (auto simp: day_header_def)
qed

lemma day_header_line:
  assumes "day_header db line = Some r"
  shows "line \<noteq> [] \<and> take 1 line \<noteq> str ''*''"
proof -
  from assms obtain p rest g where m: "re_match db day_pattern line = Some (p, rest, g)"
    by (auto simp: day_header_def split: option.splits)
  from re_match_lang[OF m] obtain u where u: "line = u @ rest" "u \<in> lang db day_pattern"
    by blast
  from u(2) obtain d v where d: "u = d @ v" "d \<noteq> []" "\<forall>c \<in> set d. is_decimal db c"
    by (auto simp: day_pattern_def Suc_le_eq)
  then have "is_decimal db (hd line)" "line \<noteq> []"
    using u(1) by auto
  moreover have "\<not> is_decimal db 42"
    by (simp add: is_decimal_def digit_of_def)
  ultimately show ?thesis
    by (cases line) (auto simp: str_def)
qed

lemma alt_chain:
  "ms db (foldr (\<lambda>n r. Alt (Lit n) r) ns (Lit l)) st = concat (map (\<lambda>n. ms db (Lit n) st) (ns @ [l]))"
  by (induction ns) simp_all

lemma lit_chain:
  "\<forall>n \<in> set ns. length n = 3 \<Longrightarrow>
     \<exists>k. concat (map (\<lambda>n. ms db (Lit n) (0, s, c)) ns) = replicate k (3, drop 3 s, c) \<and>
           (k = 0 \<longleftrightarrow> index_of (take 3 s) ns i = None)"
proof (induction ns arbitrary: i)
  case Nil
  then show ?case by simp
next
  case (Cons n ns)
  have "\<forall>n \<in> set ns. length n = 3" using Cons.prems by simp
  then have "\<exists>k. concat (map (\<lambda>n. ms db (Lit n) (0, s, c)) ns) = replicate k (3, drop 3 s, c) \<and>
           (k = 0 \<longleftrightarrow> index_of (take 3 s) ns (i + 1) = None)"
    by (rule Cons.IH)
  then obtain k where k1: "concat (map (\<lambda>n. ms db (Lit n) (0, s, c)) ns) = replicate k (3, drop 3 s, c)"
      and k2: "k = 0 \<longleftrightarrow> index_of (take 3 s) ns (i + 1) = None"
    by (elim exE conjE)
  have n: "length n = 3" using Cons.prems by simp
  have m: "ms db (Lit n) (0, s, c) = (if take 3 s = n then [(3, drop 3 s, c)] else [])"
    by (simp add: n)
  show ?case
  proof (cases "take 3 s = n")
    case True
    have a: "concat (map (\<lambda>n. ms db (Lit n) (0, s, c)) (n # ns)) = replicate (Suc k) (3, drop 3 s, c)"
      by (simp add: m True k1 del: ms.simps)
    have b: "index_of (take 3 s) (n # ns) i \<noteq> None"
      by (simp add: True)
    show ?thesis
      by (rule exI[of _ "Suc k"]) (intro conjI, rule a, simp add: b del: index_of.simps)
  next
    case False
    have a: "concat (map (\<lambda>n. ms db (Lit n) (0, s, c)) (n # ns)) = replicate k (3, drop 3 s, c)"
      by (simp add: m False k1 del: ms.simps)
    have b: "index_of (take 3 s) (n # ns) i = index_of (take 3 s) ns (i + 1)"
      by (simp add: False)
    show ?thesis
      by (rule exI[of _ k]) (intro conjI, rule a, simp only: b k2)
  qed
qed

lemma month_match:
  "re_match db month_pattern s =
     (case index_of (take 3 s) month_names 1 of
        None \<Rightarrow> None
      | Some m \<Rightarrow> Some (3, drop 3 s, [1 \<mapsto> take 3 s]))"
proof -
  have "butlast month_names @ [last month_names] = month_names"
    by (simp add: month_names_def)
  then have a: "ms db (foldr (\<lambda>n r. Alt (Lit n) r) (butlast month_names) (Lit (last month_names)))
                  (0, s, Map.empty) =
                concat (map (\<lambda>n. ms db (Lit n) (0, s, Map.empty)) month_names)"
    by (simp only: alt_chain)
  have "\<forall>n \<in> set month_names. length n = 3"
    by (simp add: month_names_def str_def)
  from lit_chain[OF this, of db s Map.empty 1] obtain k where
    k: "concat (map (\<lambda>n. ms db (Lit n) (0, s, Map.empty)) month_names) =
          replicate k (3, drop 3 s, Map.empty)"
       "k = 0 \<longleftrightarrow> index_of (take 3 s) month_names 1 = None"
    by (elim exE conjE)
  have g: "ms db month_pattern (0, s, Map.empty) =
             map (\<lambda>(p', s', c'). (p', s', c'(1 \<mapsto> take (p' - 0) s)))
               (replicate k (3, drop 3 s, Map.empty))"
    unfolding month_pattern_def ms.simps(8) a k(1) ..
  show ?thesis
  proof (cases k)
    case 0
    with k(2) show ?thesis by (simp add: re_match_def g)
  next
    case (Suc j)
    with k(2) obtain m where "index_of (take 3 s) month_names 1 = Some m" by auto
    with Suc show ?thesis by (simp add: re_match_def g)
  qed
qed

lemma detect_month_prefix:
  "detect_month db answer line0 =
     (case index_of (take 3 (strip line0)) month_names 1 of
        Some m \<Rightarrow> Inr (Some m, [])
      | None \<Rightarrow> Inr (answer, [AskInteger]))"
  by (simp add: detect_month_def month_match strptime_month_def split: option.splits)

section \<open>The loop over the lines\<close>

lemma step_header:
  assumes "day_header db (strip l) = Some (Inr (day, trailing))"
  shows "step db y sm st l =
     (case working_month sm (last_day st) day of
        Inl e \<Rightarrow> Inl e
      | Inr mo \<Rightarrow>
          (case resolve_date y mo day of
             Inl e \<Rightarrow> Inl e
           | Inr (dt, notes) \<Rightarrow>
               if trailing = []
               then Inr (st\<lparr>current_date := Some dt, last_day := Some day, ui := ui st @ notes\<rparr>)
               else event_line db (st\<lparr>current_date := Some dt, last_day := Some day,
                                        ui := ui st @ notes\<rparr>) trailing))"
  using day_header_line[OF assms] assms
  by (simp add: step_def Let_def split: sum.splits prod.splits)

lemma event_line_frame:
  "event_line db st line = Inr st' \<Longrightarrow>
     current_date st' = current_date st \<and> last_day st' = last_day st \<and> ui st' = ui st"
  by (auto simp: event_line_def split: option.splits sum.splits)

lemma step_no_header_frame:
  assumes "day_header db (strip l) = None" "step db y sm st l = Inr st'"
  shows "current_date st' = current_date st \<and> last_day st' = last_day st \<and> ui st' = ui st"
  using assms event_line_frame[of db st "strip l" st']
  by (auto simp: step_def Let_def split: if_splits)

lemma run_no_header_frame:
  assumes "\<forall>l \<in> set ls. day_header db (strip l) = None" "run_lines db y sm st ls = Inr st'"
  shows "current_date st' = current_date st \<and> last_day st' = last_day st \<and> ui st' = ui st"
  using assms
proof (induction ls arbitrary: st)
  case Nil
  then show ?case by simp
next
  case (Cons l ls)
  from Cons.prems(2) obtain st1 where s: "step db y sm st l = Inr st1"
      "run_lines db y sm st1 ls = Inr st'"
    by (auto split: sum.splits)
  from step_no_header_frame[OF _ s(1)] Cons.prems(1) Cons.IH[OF _ s(2)] show ?case by simp
qed

lemma run_lines_append:
  "run_lines db y sm st (xs @ ys) =
     (case run_lines db y sm st xs of Inl e \<Rightarrow> Inl e | Inr st1 \<Rightarrow> run_lines db y sm st1 ys)"
  by (induction xs arbitrary: st) (auto split: sum.splits)

lemma plus_one_day_28:
  assumes "valid_date y m 28"
  shows "plus_one_day \<lparr>dt_year = y, dt_month = m, dt_day = 28\<rparr> =
           Inr (if m = 2 \<and> \<not> is_leap y then \<lparr>dt_year = y, dt_month = 3, dt_day = 1\<rparr>
                else \<lparr>dt_year = y, dt_month = m, dt_day = 29\<rparr>)"
  using assms by (auto simp: plus_one_day_def valid_date_def days_in_month_def)

lemma resolve_date_invalid:
  assumes "valid_date y m 28" "\<not> valid_date y m d" "fits_c_int d"
  shows "resolve_date y (Some m) d =
           (case plus_one_day \<lparr>dt_year = y, dt_month = m, dt_day = 28\<rparr> of
              Inl e \<Rightarrow> Inl e
            | Inr c \<Rightarrow> Inr (c, [ShowWarning m d y c]))"
proof -
  from assms(1) have f: "fits_c_int y" "fits_c_int m" "fits_c_int 28"
    by (auto simp: valid_date_def fits_c_int_def)
  then have a: "datetime y (Some m) d = Inl ValueError"
    using assms(2,3) by (simp add: datetime_def)
  have b: "datetime y (Some m) 28 = Inr \<lparr>dt_year = y, dt_month = m, dt_day = 28\<rparr>"
    using f assms(1) by (simp add: datetime_def)
  show ?thesis
    by (simp add: resolve_date_def a b split: sum.splits)
qed

lemma resolve_date_overflow:
  "\<not> fits_c_int d \<Longrightarrow> resolve_date y mo d = Inr r \<Longrightarrow> False"
  by (auto simp: resolve_date_def datetime_def split: option.splits if_splits)

lemma resolve_date_year:
  assumes "resolve_date y mo d = Inr (dt, notes)"
  shows "dt_year dt = y"
proof (cases "datetime y mo d")
  case (Inr a)
  with assms show ?thesis
    by (auto simp: resolve_date_def datetime_def split: option.splits if_splits)
next
  case (Inl e)
  with assms obtain m where m: "mo = Some m" "valid_date y m 28"
      "plus_one_day \<lparr>dt_year = y, dt_month = m, dt_day = 28\<rparr> = Inr dt"
    by (auto simp: resolve_date_def datetime_def split: option.splits if_splits sum.splits py_error.splits)
  from plus_one_day_28[OF m(2)] m(3) show ?thesis by (auto split: if_splits)
qed

lemma resolve_date_valid:
  "valid_date y m d \<Longrightarrow> resolve_date y (Some m) d = Inr (dt, notes) \<Longrightarrow>
     dt = \<lparr>dt_year = y, dt_month = m, dt_day = d\<rparr> \<and> notes = []"
  by (auto simp: resolve_date_def datetime_def split: if_splits)

lemma resolve_date_result:
  assumes "resolve_date y (Some m) d = Inr (dt, ws)"
  shows "dt = (if valid_date y m d then \<lparr>dt_year = y, dt_month = m, dt_day = d\<rparr>
               else if m = 2 \<and> \<not> is_leap y then \<lparr>dt_year = y, dt_month = 3, dt_day = 1\<rparr>
               else \<lparr>dt_year = y, dt_month = m, dt_day = 29\<rparr>)"
proof (cases "valid_date y m d")
  case True
  with resolve_date_valid[OF True assms] show ?thesis by simp
next
  case False
  from assms have f: "fits_c_int d"
    using resolve_date_overflow by blast
  from assms False have "datetime y (Some m) d = Inl ValueError"
    by (auto simp: resolve_date_def datetime_def split: if_splits)
  with assms obtain d28 where "datetime y (Some m) 28 = Inr d28"
    by (auto simp: resolve_date_def split: sum.splits)
  then have v: "valid_date y m 28"
    by (auto simp: datetime_def split: if_splits)
  from assms show ?thesis
    unfolding resolve_date_invalid[OF v False f] plus_one_day_28[OF v]
    using False by (auto split: if_splits)
qed

lemma resolve_date_month:
  assumes "resolve_date y (Some m) d = Inr (dt, ws)"
  shows "dt_year dt = y \<and>
         dt_month dt = (if \<not> valid_date y m d \<and> m = 2 \<and> \<not> is_leap y then 3 else m)"
  using resolve_date_result[OF assms] by (auto split: if_splits)

lemma day_after_28th:
  assumes "valid_date y m 28"
    and "plus_one_day \<lparr>dt_year = y, dt_month = m, dt_day = 28\<rparr> = Inr c"
  shows "valid_date (dt_year c) (dt_month c) (dt_day c) \<and>
         toordinal c = toordinal \<lparr>dt_year = y, dt_month = m, dt_day = 28\<rparr> + 1"
proof (cases "m = 2 \<and> \<not> is_leap y")
  case True
  with plus_one_day_28[OF assms(1)] assms(2)
  have c: "c = \<lparr>dt_year = y, dt_month = 3, dt_day = 1\<rparr>" by simp
  have "days_before_month y 3 = days_before_month y 2 + 28"
    using True by (simp add: days_before_month_def days_in_month_def upto.simps)
  with assms(1) True show ?thesis
    by (simp add: c toordinal_def valid_date_def days_in_month_def)
next
  case False
  with plus_one_day_28[OF assms(1)] assms(2)
  have c: "c = \<lparr>dt_year = y, dt_month = m, dt_day = 29\<rparr>" by auto
  have "29 \<le> days_in_month y m"
    using False by (auto simp: days_in_month_def)
  with assms(1) show ?thesis
    by (simp add: c toordinal_def valid_date_def)
qed

lemma header_step:
  assumes "day_header db (strip l) = Some (Inr (day, trailing))"
    and "step db y sm st l = Inr st'"
  shows "\<exists>mo dt ws. working_month sm (last_day st) day = Inr mo \<and>
           resolve_date y mo day = Inr (dt, ws) \<and>
           current_date st' = Some dt \<and> last_day st' = Some day \<and> ui st' = ui st @ ws"
proof -
  from assms(2) obtain mo dt ws where r: "working_month sm (last_day st) day = Inr mo"
      "resolve_date y mo day = Inr (dt, ws)"
    unfolding step_header[OF assms(1)] by (auto split: sum.splits)
  define st1 where "st1 = st\<lparr>current_date := Some dt, last_day := Some day, ui := ui st @ ws\<rparr>"
  have "st' = st1 \<or> event_line db st1 trailing = Inr st'"
    using assms(2) unfolding step_header[OF assms(1)] st1_def by (simp add: r split: if_splits)
  then have "current_date st' = Some dt \<and> last_day st' = Some day \<and> ui st' = ui st @ ws"
    using event_line_frame[of db st1 trailing st'] by (auto simp: st1_def)
  with r show ?thesis by blast
qed

lemma resolve_date_no_prompt:
  "resolve_date y mo d = Inr (dt, ws) \<Longrightarrow> AskInteger \<notin> set ws"
  by (auto simp: resolve_date_def split: sum.splits py_error.splits)

lemma step_prompt:
  assumes "step db y sm st l = Inr st'"
  shows "AskInteger \<in> set (ui st') \<longleftrightarrow> AskInteger \<in> set (ui st)"
proof (cases "strip l = [] \<or> take 1 (strip l) = str ''*''")
  case True
  with assms show ?thesis by (auto simp: step_def Let_def)
next
  case False
  show ?thesis
  proof (cases "day_header db (strip l)")
    case None
    from step_no_header_frame[OF None assms] show ?thesis by simp
  next
    case (Some r)
    with assms False obtain day trailing where r: "r = Inr (day, trailing)"
      by (cases r) (auto simp: step_def Let_def)
    from assms obtain mo dt ws where a: "resolve_date y mo day = Inr (dt, ws)"
        "ui st' = ui st @ ws"
      unfolding step_header[OF Some[unfolded r]]
      by (auto split: sum.splits if_splits dest!: event_line_frame)
    from resolve_date_no_prompt[OF a(1)] a(2) show ?thesis by simp
  qed
qed

lemma run_lines_prompt:
  "run_lines db y sm st ls = Inr st' \<Longrightarrow>
     (AskInteger \<in> set (ui st') \<longleftrightarrow> AskInteger \<in> set (ui st))"
proof (induction ls arbitrary: st)
  case Nil
  then show ?case by simp
next
  case (Cons l ls)
  from Cons.prems obtain st1 where s: "step db y sm st l = Inr st1"
      "run_lines db y sm st1 ls = Inr st'"
    by (auto split: sum.splits)
  from step_prompt[OF s(1)] Cons.IH[OF s(2)] show ?case by simp
qed

lemma add_events_inv:
  assumes "\<forall>item ev. make_event db cur item = Inr ev \<longrightarrow> P ev"
    and "\<forall>e \<in> set evs. P e"
    and "add_events db cur items evs = Inr evs'"
  shows "\<forall>e \<in> set evs'. P e"
  using assms(2,3)
proof (induction items arbitrary: evs)
  case Nil
  then show ?case by simp
next
  case (Cons item0 items)
  show ?case
  proof (cases "strip item0 = []")
    case True
    with Cons show ?thesis by simp
  next
    case False
    with Cons.prems(2) obtain ev where ev: "make_event db cur (strip item0) = Inr ev"
        "add_events db cur items (evs @ [ev]) = Inr evs'"
      by (auto simp: Let_def split: sum.splits)
    from assms(1) ev(1) Cons.prems(1) have "\<forall>e \<in> set (evs @ [ev]). P e" by auto
    from Cons.IH[OF this ev(2)] show ?thesis .
  qed
qed

lemma event_line_inv:
  assumes "\<forall>cur item ev. make_event db cur item = Inr ev \<longrightarrow> P ev"
    and "\<forall>e \<in> set (events st). P e"
    and "event_line db st line = Inr st'"
  shows "\<forall>e \<in> set (events st'). P e"
proof (cases "current_date st")
  case None
  with assms(2,3) show ?thesis by (simp add: event_line_def)
next
  case (Some cur)
  with assms(3) obtain evs' where
    a: "add_events db cur (re_split db split_pattern line) (events st) = Inr evs'" "events st' = evs'"
    by (auto simp: event_line_def split: sum.splits)
  from assms(1) have "\<forall>item ev. make_event db cur item = Inr ev \<longrightarrow> P ev" by blast
  from add_events_inv[OF this assms(2) a(1)] a(2) show ?thesis by simp
qed

lemma step_inv:
  assumes "\<forall>cur item ev. make_event db cur item = Inr ev \<longrightarrow> P ev"
    and "\<forall>e \<in> set (events st). P e"
    and "step db y sm st l = Inr st'"
  shows "\<forall>e \<in> set (events st'). P e"
proof -
  have el: "\<And>s line. event_line db s line = Inr st' \<Longrightarrow> \<forall>e \<in> set (events s). P e \<Longrightarrow>
              \<forall>e \<in> set (events st'). P e"
    using event_line_inv[OF assms(1)] by blast
  show ?thesis
    using assms(2,3)
    by (auto simp: step_def Let_def split: if_splits option.splits sum.splits prod.splits
             dest!: el)
qed

lemma run_lines_inv:
  assumes "\<forall>cur item ev. make_event db cur item = Inr ev \<longrightarrow> P ev"
    and "\<forall>e \<in> set (events st). P e"
    and "run_lines db y sm st ls = Inr st'"
  shows "\<forall>e \<in> set (events st'). P e"
  using assms(2,3)
proof (induction ls arbitrary: st)
  case Nil
  then show ?case by simp
next
  case (Cons l ls)
  from Cons.prems(2) obtain st1 where s: "step db y sm st l = Inr st1"
      "run_lines db y sm st1 ls = Inr st'"
    by (auto split: sum.splits)
  from step_inv[OF assms(1) Cons.prems(1) s(1)] have "\<forall>e \<in> set (events st1). P e" .
  from Cons.IH[OF this s(2)] show ?case .
qed

lemma parse_schedule_inv:
  assumes "\<forall>cur item ev. make_event db cur item = Inr ev \<longrightarrow> P ev"
    and "parse_schedule db answer text y = Inr (evs, u)"
  shows "\<forall>e \<in> set evs. P e"
proof -
  from assms(2) obtain sm asked ls st where
    r: "run_lines db y sm \<lparr>current_date = None, last_day = None, events = [], ui = asked\<rparr> ls = Inr st"
       "evs = events st"
    by (auto simp: parse_schedule_def simp del: run_lines.simps
             split: list.splits sum.splits prod.splits)
  have "\<forall>e \<in> set (events \<lparr>current_date = None, last_day = None, events = [], ui = asked\<rparr>). P e"
    by simp
  from run_lines_inv[OF assms(1) this r(1)] r(2) show ?thesis by simp
qed

lemma parse_schedule_unfold:
  assumes "splitlines text = line0 # rest"
  shows "parse_schedule db answer text y =
           (case run_lines db y
                   (case index_of (take 3 (strip line0)) month_names 1 of
                      Some m \<Rightarrow> Some m | None \<Rightarrow> answer)
                   \<lparr>current_date = None, last_day = None, events = [],
                    ui = (case index_of (take 3 (strip line0)) month_names 1 of
                            Some m \<Rightarrow> [] | None \<Rightarrow> [AskInteger])\<rparr>
                   (line0 # rest) of
              Inl e \<Rightarrow> Inl e
            | Inr st \<Rightarrow> Inr (events st, ui st))"
  by (simp add: parse_schedule_def assms detect_month_prefix split: option.splits
           del: run_lines.simps)

section \<open>When the parser returns\<close>

text \<open>
  With a text that is not empty, a year from 1 to 9999 and an answer from 1 to 12 to the
  month prompt, no exception escapes \<open>parse_schedule\<close>.
\<close>

lemma resolve_date_returns:
  assumes "1 \<le> y" "y \<le> 9999" "1 \<le> m" "m \<le> 12" "0 \<le> d" "d \<le> 99"
  shows "\<exists>r. resolve_date y (Some m) d = Inr r"
proof (cases "valid_date y m d")
  case True
  then show ?thesis
    using assms by (simp add: resolve_date_def datetime_def fits_c_int_def)
next
  case False
  have v: "valid_date y m 28"
    using assms by (simp add: valid_date_def days_in_month_def)
  have f: "fits_c_int d" using assms by (simp add: fits_c_int_def)
  show ?thesis
    unfolding resolve_date_invalid[OF v False f] plus_one_day_28[OF v] by simp
qed

lemma step_returns:
  assumes ok: "ucd_ok db" and y: "1 \<le> y" "y \<le> 9999" and sm: "1 \<le> sm" "sm \<le> 12"
  shows "\<exists>st'. step db y (Some sm) st l = Inr st'"
proof (cases "strip l = [] \<or> take 1 (strip l) = str ''*''")
  case True
  then show ?thesis by (auto simp: step_def Let_def)
next
  case False
  show ?thesis
  proof (cases "day_header db (strip l)")
    case None
    with False event_line_ok[OF ok, of st "strip l"] show ?thesis
      by (auto simp: step_def Let_def)
  next
    case (Some r)
    from day_header_ok[OF ok Some] obtain day trailing where
      r: "r = Inr (day, trailing)" "0 \<le> day" "day \<le> 99" by blast
    define mo where "mo = (if (case last_day st of None \<Rightarrow> False | Some p \<Rightarrow> p \<noteq> 0 \<and> day < p)
                           then (if sm + 1 > 12 then 1 else sm + 1) else sm)"
    have mo: "working_month (Some sm) (last_day st) day = Inr (Some mo)" "1 \<le> mo" "mo \<le> 12"
      using sm by (auto simp: working_month_def mo_def)
    from resolve_date_returns[OF y mo(2,3) r(2,3)] obtain dt ws where
      rd: "resolve_date y (Some mo) day = Inr (dt, ws)" by (cases) auto
    from event_line_ok[OF ok, of "st\<lparr>current_date := Some dt, last_day := Some day,
           ui := ui st @ ws\<rparr>" trailing]
    show ?thesis
      unfolding step_header[OF Some[unfolded r(1)]] mo(1) by (auto simp: rd)
  qed
qed

lemma run_lines_returns:
  assumes ok: "ucd_ok db" and y: "1 \<le> y" "y \<le> 9999" and sm: "1 \<le> sm" "sm \<le> 12"
  shows "\<exists>st'. run_lines db y (Some sm) st ls = Inr st'"
proof (induction ls arbitrary: st)
  case Nil
  then show ?case by simp
next
  case (Cons l ls)
  from step_returns[OF ok y sm, of st l] obtain st1 where "step db y (Some sm) st l = Inr st1"
    by blast
  with Cons[of st1] show ?case by simp
qed

lemma splitlines_from_nonempty: "s \<noteq> [] \<Longrightarrow> splitlines_from cur s \<noteq> []"
  by (induction cur s rule: splitlines_from.induct) auto

lemma index_of_range: "index_of x ys i = Some m \<Longrightarrow> i \<le> m \<and> m < i + int (length ys)"
proof (induction ys arbitrary: i)
  case Nil
  then show ?case by simp
next
  case (Cons a ys)
  show ?case
  proof (cases "x = a")
    case True
    with Cons.prems show ?thesis by simp
  next
    case False
    with Cons.prems have "index_of x ys (i + 1) = Some m" by simp
    from Cons.IH[OF this] show ?thesis by simp
  qed
qed

lemma parse_schedule_returns:
  assumes ok: "ucd_ok db" and y: "1 \<le> y" "y \<le> 9999"
    and ans: "answer = Some a" "1 \<le> a" "a \<le> 12"
    and t: "text \<noteq> []"
  shows "\<exists>evs u. parse_schedule db answer text y = Inr (evs, u)"
proof -
  from splitlines_from_nonempty[OF t, of "[]"] obtain line0 rest where
    l: "splitlines text = line0 # rest"
    by (cases "splitlines text") (auto simp: splitlines_def)
  obtain sm where sm: "(case index_of (take 3 (strip line0)) month_names 1 of
                      Some m \<Rightarrow> Some m | None \<Rightarrow> answer) = Some sm" "1 \<le> sm" "sm \<le> 12"
  proof (cases "index_of (take 3 (strip line0)) month_names 1")
    case None
    with ans that show ?thesis by simp
  next
    case (Some m)
    from index_of_range[OF Some] have "1 \<le> m" "m \<le> 12"
      by (simp_all add: month_names_def)
    with Some that show ?thesis by simp
  qed
  from run_lines_returns[OF ok y sm(2,3)] obtain st where
    "run_lines db y (Some sm)
       \<lparr>current_date = None, last_day = None, events = [],
        ui = (case index_of (take 3 (strip line0)) month_names 1 of
                Some m \<Rightarrow> [] | None \<Rightarrow> [AskInteger])\<rparr> (line0 # rest) = Inr st"
    by blast
  then show ?thesis
    unfolding parse_schedule_unfold[OF l] sm(1) by simp
qed

section \<open>Examples\<close>

lemma ascii_ucd_ok: "ucd_ok ascii_ucd"
  by (simp add: ucd_ok_def ascii_ucd_def)

lemma scenario_lines:
  "splitlines scenario_text =
     [str ''Jan 2026'', str ''23 Mon 10am-11am Practice'', str ''24 Tue  Game 7pm'']"
  by (simp add: scenario_text_def ev)

lemma scenario_parse:
  "parse_schedule ascii_ucd None scenario_text 2026 = Inr ([practice_event, game_event], [])"
  by (simp add: scenario_text_def practice_event_def game_event_def ev)

section \<open>The claims\<close>

text \<open>
  C1 (as amended). For every day header whose day number is not a valid day of the
  working month, while the 28th of that month exists (year 1 to 9999, month 1 to 12),
  the parser resolves the date to the day after the 28th of that month: the 29th of the
  same month, or the 1st of March when the month is February of a year that is not a leap
  year. It opens one correction dialog, which names the invalid month, day and year and
  the corrected date.
\<close>

theorem invalid_day_resolves_to_day_after_28th:
  assumes h: "day_header db (strip l) = Some (Inr (day, trailing))"
    and w: "working_month sm (last_day st) day = Inr (Some m)"
    and v28: "valid_date y m 28"
    and inv: "\<not> valid_date y m day"
    and s: "step db y sm st l = Inr st'"
  shows "current_date st' =
           Some (if m = 2 \<and> \<not> is_leap y then \<lparr>dt_year = y, dt_month = 3, dt_day = 1\<rparr>
                 else \<lparr>dt_year = y, dt_month = m, dt_day = 29\<rparr>) \<and>
         ui st' = ui st @
           [ShowWarning m day y
              (if m = 2 \<and> \<not> is_leap y then \<lparr>dt_year = y, dt_month = 3, dt_day = 1\<rparr>
               else \<lparr>dt_year = y, dt_month = m, dt_day = 29\<rparr>)]"
proof -
  define c where "c = (if m = 2 \<and> \<not> is_leap y then \<lparr>dt_year = y, dt_month = 3, dt_day = 1\<rparr>
                 else \<lparr>dt_year = y, dt_month = m, dt_day = 29\<rparr>)"
  from s obtain r where r: "resolve_date y (Some m) day = Inr r"
    unfolding step_header[OF h] w by (auto split: sum.splits)
  then have "fits_c_int day" using resolve_date_overflow by blast
  from resolve_date_invalid[OF v28 inv this] plus_one_day_28[OF v28]
  have rd: "resolve_date y (Some m) day = Inr (c, [ShowWarning m day y c])"
    by (simp add: c_def)
  define st1 where "st1 = st\<lparr>current_date := Some c, last_day := Some day,
                             ui := ui st @ [ShowWarning m day y c]\<rparr>"
  have "st' = st1 \<or> event_line db st1 trailing = Inr st'"
    using s unfolding step_header[OF h] w st1_def by (simp add: rd split: if_splits)
  then have "current_date st' = Some c \<and> ui st' = ui st @ [ShowWarning m day y c]"
    using event_line_frame[of db st1 trailing st'] by (auto simp: st1_def)
  then show ?thesis by (simp add: c_def)
qed

text \<open>The theorem at the header \<open>31 Fri\<close> in April 2026.\<close>

theorem invalid_day_resolves_to_day_after_28th_witness:
  "day_header ascii_ucd (strip (str ''31 Fri'')) = Some (Inr (31, [])) \<and>
   working_month (Some 4) (last_day fresh) 31 = Inr (Some 4) \<and>
   valid_date 2026 4 28 \<and> \<not> valid_date 2026 4 31 \<and>
   step ascii_ucd 2026 (Some 4) fresh (str ''31 Fri'') =
     Inr \<lparr>current_date = Some \<lparr>dt_year = 2026, dt_month = 4, dt_day = 29\<rparr>,
          last_day = Some 31, events = [],
          ui = [ShowWarning 4 31 2026 \<lparr>dt_year = 2026, dt_month = 4, dt_day = 29\<rparr>]\<rparr> \<and>
   current_date
     \<lparr>current_date = Some \<lparr>dt_year = 2026, dt_month = 4, dt_day = 29\<rparr>,
      last_day = Some 31, events = [],
      ui = [ShowWarning 4 31 2026 \<lparr>dt_year = 2026, dt_month = 4, dt_day = 29\<rparr>]\<rparr> =
     Some \<lparr>dt_year = 2026, dt_month = 4, dt_day = 29\<rparr>"
proof -
  have h: "day_header ascii_ucd (strip (str ''31 Fri'')) = Some (Inr (31, []))"
    by (simp add: ev)
  have w: "working_month (Some 4) (last_day fresh) 31 = Inr (Some 4)"
    by (simp add: fresh_def ev)
  have v: "valid_date 2026 4 28" "\<not> valid_date 2026 4 31"
    by (simp_all add: ev)
  have s: "step ascii_ucd 2026 (Some 4) fresh (str ''31 Fri'') =
     Inr \<lparr>current_date = Some \<lparr>dt_year = 2026, dt_month = 4, dt_day = 29\<rparr>,
          last_day = Some 31, events = [],
          ui = [ShowWarning 4 31 2026 \<lparr>dt_year = 2026, dt_month = 4, dt_day = 29\<rparr>]\<rparr>"
    by (simp add: fresh_def ev)
  have c: "current_date
     \<lparr>current_date = Some \<lparr>dt_year = 2026, dt_month = 4, dt_day = 29\<rparr>,
      last_day = Some 31, events = [],
      ui = [ShowWarning 4 31 2026 \<lparr>dt_year = 2026, dt_month = 4, dt_day = 29\<rparr>]\<rparr> =
     Some \<lparr>dt_year = 2026, dt_month = 4, dt_day = 29\<rparr>"
    using invalid_day_resolves_to_day_after_28th[OF h w v s] by simp
  from h w v s c show ?thesis by (intro conjI)
qed

text \<open>
  The claim as it stands fails: day 31 in April, a month of 30 days, resolves to the 29th
  of April and not to the 1st of May.
\<close>

theorem day_31_of_april_counterexample:
  "parse_schedule ascii_ucd None (str ''Apr 2026\<newline>31 Fri Practice'') 2026 =
     Inr ([\<lparr>Subject = str ''Practice'',
            Start_Date = \<lparr>dt_year = 2026, dt_month = 4, dt_day = 29\<rparr>,
            Start_Time = [], End_Date = None, End_Time = [],
            All_Day_Event = str ''True'', Description = [], Location = []\<rparr>],
          [ShowWarning 4 31 2026 \<lparr>dt_year = 2026, dt_month = 4, dt_day = 29\<rparr>]) \<and>
   \<lparr>dt_year = 2026, dt_month = 4, dt_day = 29\<rparr> \<noteq> \<lparr>dt_year = 2026, dt_month = 5, dt_day = 1\<rparr>"
  by (simp add: ev)

text \<open>
  C2 (as amended). When the year, month and day of a day header are not a valid calendar
  date and the 28th of that month exists (year 1 to 9999, month 1 to 12),
  \<open>parse_schedule\<close> sets the current date to the 28th of that month plus one day, that
  is to the valid date whose ordinal is one more than that of the 28th; it opens a
  warning dialog that names the invalid date and the corrected one, and goes on: the step
  returns a state, with the events of the header's trailing text added, and the remaining
  lines are run from it.
\<close>

theorem invalid_date_corrected_and_parsing_continues:
  assumes ok: "ucd_ok db"
    and h: "day_header db (strip l) = Some (Inr (day, trailing))"
    and w: "working_month sm (last_day st) day = Inr (Some m)"
    and v28: "valid_date y m 28"
    and inv: "\<not> valid_date y m day"
  shows "\<exists>c new.
           plus_one_day \<lparr>dt_year = y, dt_month = m, dt_day = 28\<rparr> = Inr c \<and>
           valid_date (dt_year c) (dt_month c) (dt_day c) \<and>
           toordinal c = toordinal \<lparr>dt_year = y, dt_month = m, dt_day = 28\<rparr> + 1 \<and>
           step db y sm st l =
             Inr (st\<lparr>current_date := Some c, last_day := Some day, events := events st @ new,
                     ui := ui st @ [ShowWarning m day y c]\<rparr>) \<and>
           run_lines db y sm st (l # ls) =
             run_lines db y sm
               (st\<lparr>current_date := Some c, last_day := Some day, events := events st @ new,
                   ui := ui st @ [ShowWarning m day y c]\<rparr>) ls"
proof -
  from plus_one_day_28[OF v28] obtain c where
    c: "plus_one_day \<lparr>dt_year = y, dt_month = m, dt_day = 28\<rparr> = Inr c" by blast
  note o = day_after_28th[OF v28 c]
  from day_header_ok[OF ok h] have "0 \<le> day" "day \<le> 99" by auto
  then have "fits_c_int day" by (simp add: fits_c_int_def)
  from resolve_date_invalid[OF v28 inv this] c
  have rd: "resolve_date y (Some m) day = Inr (c, [ShowWarning m day y c])" by simp
  define st1 where "st1 = st\<lparr>current_date := Some c, last_day := Some day,
                             ui := ui st @ [ShowWarning m day y c]\<rparr>"
  have step1: "step db y sm st l = (if trailing = [] then Inr st1 else event_line db st1 trailing)"
    unfolding step_header[OF h] w st1_def by (simp add: rd)
  from event_line_ok[OF ok, of st1 trailing] obtain new where
    e: "event_line db st1 trailing = Inr (st1\<lparr>events := events st1 @ new\<rparr>)" by blast
  define new' where "new' = (if trailing = [] then [] else new)"
  have "step db y sm st l = Inr (st1\<lparr>events := events st1 @ new'\<rparr>)"
    using step1 e by (simp add: new'_def)
  then have st: "step db y sm st l =
      Inr (st\<lparr>current_date := Some c, last_day := Some day, events := events st @ new',
              ui := ui st @ [ShowWarning m day y c]\<rparr>)"
    by (simp add: st1_def)
  show ?thesis
    using c o st by (intro exI[of _ c] exI[of _ new']) simp
qed

text \<open>The theorem at the header \<open>30 Mon Practice\<close> in February 2026.\<close>

theorem invalid_date_corrected_and_parsing_continues_witness:
  "ucd_ok ascii_ucd \<and>
   day_header ascii_ucd (strip (str ''30 Mon Practice'')) = Some (Inr (30, str ''Practice'')) \<and>
   working_month (Some 2) (last_day fresh) 30 = Inr (Some 2) \<and>
   valid_date 2026 2 28 \<and> \<not> valid_date 2026 2 30 \<and>
   (\<exists>c. plus_one_day \<lparr>dt_year = 2026, dt_month = 2, dt_day = 28\<rparr> = Inr c \<and>
      toordinal c = toordinal \<lparr>dt_year = 2026, dt_month = 2, dt_day = 28\<rparr> + 1 \<and>
      (\<exists>new. step ascii_ucd 2026 (Some 2) fresh (str ''30 Mon Practice'') =
        Inr (fresh\<lparr>current_date := Some c, last_day := Some 30, events := events fresh @ new,
                    ui := ui fresh @ [ShowWarning 2 30 2026 c]\<rparr>)))"
proof -
  have h: "day_header ascii_ucd (strip (str ''30 Mon Practice'')) = Some (Inr (30, str ''Practice''))"
    by (simp add: ev)
  have w: "working_month (Some 2) (last_day fresh) 30 = Inr (Some 2)"
    by (simp add: fresh_def ev)
  have v: "valid_date 2026 2 28" "\<not> valid_date 2026 2 30"
    by (simp_all add: ev)
  have c: "\<exists>c. plus_one_day \<lparr>dt_year = 2026, dt_month = 2, dt_day = 28\<rparr> = Inr c \<and>
      toordinal c = toordinal \<lparr>dt_year = 2026, dt_month = 2, dt_day = 28\<rparr> + 1 \<and>
      (\<exists>new. step ascii_ucd 2026 (Some 2) fresh (str ''30 Mon Practice'') =
        Inr (fresh\<lparr>current_date := Some c, last_day := Some 30, events := events fresh @ new,
                    ui := ui fresh @ [ShowWarning 2 30 2026 c]\<rparr>))"
    using invalid_date_corrected_and_parsing_continues[OF ascii_ucd_ok h w v, where ls = "[]"] by blast
  from ascii_ucd_ok h w v c show ?thesis by (intro conjI)
qed

text \<open>
  The claim as it stands fails: with the year 10000 the header \<open>30 Mon Practice\<close> of
  February is not a valid date, no 28th of that month exists, and the parse ends with the
  \<open>ValueError\<close> of the handler's own \<open>datetime\<close>: no date is set and nothing goes on.
\<close>

theorem year_out_of_range_counterexample:
  "day_header ascii_ucd (strip (str ''30 Mon Practice'')) = Some (Inr (30, str ''Practice'')) \<and>
   \<not> valid_date 10000 2 30 \<and>
   parse_schedule ascii_ucd None (str ''Feb\<newline>30 Mon Practice'') 10000 = Inl ValueError"
  by (simp add: ev)

text \<open>
  C3. \<open>parse_time_range\<close> converts each side of a range on its own. With a marker on
  that side, pm with an hour other than 12 adds 12 and am with hour 12 gives 0; without
  one the digits are the 24-hour value: for every hour and minute of at most two digits,
  \<open>to_24h\<close> gives the hour that the specification's rule \<open>spec_hour24\<close> gives, from the
  marker of that side alone. So \<open>9-10pm\<close> starts at 09:00 and ends at 22:00,
  \<open>10am-11:30am\<close> gives 10:00 and 11:30, and \<open>14:00\<close> gives 14:00 and no end.
\<close>

theorem time_sides_convert_independently:
  "parse_time_range db (str ''9-10pm'') = Inr (Some (str ''09:00''), Some (str ''22:00'')) \<and>
   parse_time_range db (str ''10am-11:30am'') = Inr (Some (str ''10:00''), Some (str ''11:30'')) \<and>
   parse_time_range db (str ''14:00'') = Inr (Some (str ''14:00''), None) \<and>
   (\<forall>h m mk. h \<le> 99 \<and> m \<le> 99 \<longrightarrow>
      to_24h db (dec h) mk = Inr (fmt02 (spec_hour24 mk (int h)) @ str '':00'') \<and>
      to_24h db (dec h @ str '':'' @ fmt02 (int m)) mk =
        Inr (fmt02 (spec_hour24 mk (int h)) @ str '':'' @ fmt02 (int m))) \<and>
   (\<forall>text p rest g.
      re_match db time_pattern (strip (map (\<lambda>c. if c = en_dash then 45 else c) text)) =
        Some (p, rest, g) \<longrightarrow>
      (\<exists>start. g 1 = Some start \<and>
         parse_time_range db text =
           (case to_24h db start (g 3) of
              Inl e \<Rightarrow> Inl e
            | Inr start24 \<Rightarrow>
                (case g 4 of
                   None \<Rightarrow> Inr (Some start24, None)
                 | Some fin \<Rightarrow>
                     (case to_24h db fin (g 6) of
                        Inl e \<Rightarrow> Inl e
                      | Inr end24 \<Rightarrow> Inr (Some start24, Some end24))))))"
proof -
  have ex: "parse_time_range db (str ''9-10pm'') = Inr (Some (str ''09:00''), Some (str ''22:00''))"
    "parse_time_range db (str ''10am-11:30am'') = Inr (Some (str ''10:00''), Some (str ''11:30''))"
    "parse_time_range db (str ''14:00'') = Inr (Some (str ''14:00''), None)"
    by (simp_all add: ev)
  have bare: "to_24h db (dec h) mk = Inr (fmt02 (spec_hour24 mk (int h)) @ str '':00'')"
    if "h \<le> 99" for h mk
  proof -
    from dec_shape[OF that] have st: "strip (dec h) = dec h" by (simp add: strip_id)
    have sp: "split_on 58 [] (if 58 \<in> set (strip (dec h)) then strip (dec h)
                else strip (dec h) @ str '':00'') = [dec h, [48, 48]]"
      unfolding st using dec_shape[OF that] split_on_one_sep[of 58 "dec h" "[48, 48]" "[]"]
      by (simp add: str_def)
    have z: "py_int db [48, 48] = Inr 0"
      by (simp add: py_int_def is_decimal_def digit_of_def digits_value_def)
    from to_24h_eval[OF sp py_int_dec[OF that] z, where mk = mk] show ?thesis
      by (simp add: fmt02_def dec_one str_def)
  qed
  have mins: "to_24h db (dec h @ str '':'' @ fmt02 (int m)) mk =
        Inr (fmt02 (spec_hour24 mk (int h)) @ str '':'' @ fmt02 (int m))"
    if "h \<le> 99" "m \<le> 99" for h m mk
  proof -
    let ?t = "dec h @ str '':'' @ fmt02 (int m)"
    have f: "fmt02 (int m) \<noteq> []" "58 \<notin> set (fmt02 (int m))" "\<not> is_space (last (fmt02 (int m)))"
      using that(2) by (auto simp: fmt02_two is_space_def)
    have "?t \<noteq> []" "\<not> is_space (hd ?t)" "\<not> is_space (last ?t)"
      using dec_shape[OF that(1)] f by (auto simp: str_def)
    then have st: "strip ?t = ?t" by (rule strip_id)
    have sp: "split_on 58 [] (if 58 \<in> set (strip ?t) then strip ?t else strip ?t @ str '':00'')
                = [dec h, fmt02 (int m)]"
      unfolding st using dec_shape[OF that(1)] f split_on_one_sep[of 58 "dec h" "fmt02 (int m)" "[]"]
      by (simp add: str_def)
    from to_24h_eval[OF sp py_int_dec[OF that(1)] py_int_fmt02[OF that(2)], where mk = mk]
    show ?thesis .
  qed
  from ex bare mins parse_time_range_groups[of db] show ?thesis by blast
qed

text \<open>The rule at 10:30 with the marker \<open>PM\<close>, which gives 22:30.\<close>

theorem time_sides_convert_independently_witness:
  "(10::nat) \<le> 99 \<and> (30::nat) \<le> 99 \<and>
   spec_hour24 (Some (str ''PM'')) (int 10) = 22 \<and>
   to_24h ascii_ucd (dec 10 @ str '':'' @ fmt02 (int 30)) (Some (str ''PM'')) =
     Inr (fmt02 (spec_hour24 (Some (str ''PM'')) (int 10)) @ str '':'' @ fmt02 (int 30))"
proof -
  have b: "(10::nat) \<le> 99 \<and> (30::nat) \<le> 99" by simp
  have r: "spec_hour24 (Some (str ''PM'')) (int 10) = 22"
    by (simp add: spec_hour24_def ev)
  have "\<forall>h m mk. h \<le> 99 \<and> m \<le> 99 \<longrightarrow>
      to_24h ascii_ucd (dec h) mk = Inr (fmt02 (spec_hour24 mk (int h)) @ str '':00'') \<and>
      to_24h ascii_ucd (dec h @ str '':'' @ fmt02 (int m)) mk =
        Inr (fmt02 (spec_hour24 mk (int h)) @ str '':'' @ fmt02 (int m))"
    by (rule conjunct1[OF conjunct2[OF conjunct2[OF conjunct2[OF time_sides_convert_independently]]]])
  then have "to_24h ascii_ucd (dec 10 @ str '':'' @ fmt02 (int 30)) (Some (str ''PM'')) =
     Inr (fmt02 (spec_hour24 (Some (str ''PM'')) (int 10)) @ str '':'' @ fmt02 (int 30))"
    using b by blast
  with b r show ?thesis by (intro conjI) simp_all
qed

text \<open>
  C4. The subject of an event is the item with its leading time expression removed, by
  the pattern the time range parser accepts, the en dash read as a hyphen. The code does
  not do this for an en dash: \<open>parse_time_range\<close> replaces it before matching, the
  removal works on the item as written. For 9, en dash, \<open>10pm Practice\<close> the times are those
  of the range, 09:00 to 22:00, and the subject keeps the en dash and \<open>10pm Practice\<close>;
  with a hyphen in place of the en dash the subject is \<open>Practice\<close>.
\<close>

theorem subject_keeps_en_dash_range:
  "parse_schedule ascii_ucd None
     (str ''Jan\<newline>1 Mon 9'' @ [en_dash] @ str ''10pm Practice'') 2026 =
     Inr ([\<lparr>Subject = en_dash # str ''10pm Practice'',
            Start_Date = \<lparr>dt_year = 2026, dt_month = 1, dt_day = 1\<rparr>,
            Start_Time = str ''09:00'',
            End_Date = Some \<lparr>dt_year = 2026, dt_month = 1, dt_day = 1\<rparr>,
            End_Time = str ''22:00'',
            All_Day_Event = str ''False'', Description = [], Location = []\<rparr>], []) \<and>
   parse_schedule ascii_ucd None (str ''Jan\<newline>1 Mon 9-10pm Practice'') 2026 =
     Inr ([\<lparr>Subject = str ''Practice'',
            Start_Date = \<lparr>dt_year = 2026, dt_month = 1, dt_day = 1\<rparr>,
            Start_Time = str ''09:00'',
            End_Date = Some \<lparr>dt_year = 2026, dt_month = 1, dt_day = 1\<rparr>,
            End_Time = str ''22:00'',
            All_Day_Event = str ''False'', Description = [], Location = []\<rparr>], [])"
  by (simp add: ev)

text \<open>
  C5 (as amended). For two consecutive day headers (lines that are not headers may stand
  between them) of which the second has the smaller day number, the date of the second
  header is built with the start month plus one, month 12 wrapping to month 1, and with
  the year given to the parser: the year is never incremented. The month of the resolved
  date is that month, except when the day is not valid for it and it is February of a
  year that is not a leap year: then the date correction gives the 1st of March, and the
  resolved month is 3.
\<close>

theorem rollover_after_smaller_day:
  assumes h1: "day_header db (strip l1) = Some (Inr (d1, t1))"
    and mid: "\<forall>l \<in> set mids. day_header db (strip l) = None"
    and h2: "day_header db (strip l2) = Some (Inr (d2, t2))"
    and lt: "d2 < d1"
    and run: "run_lines db y (Some sm) st (l1 # mids @ [l2]) = Inr st'"
  shows "\<exists>dt ws. resolve_date y (Some (if sm + 1 > 12 then 1 else sm + 1)) d2 = Inr (dt, ws) \<and>
           current_date st' = Some dt \<and> dt_year dt = y \<and>
           dt_month dt =
             (if \<not> valid_date y (if sm + 1 > 12 then 1 else sm + 1) d2 \<and>
                 (if sm + 1 > 12 then 1 else sm + 1) = 2 \<and> \<not> is_leap y
              then 3 else (if sm + 1 > 12 then 1 else sm + 1))"
proof -
  from run obtain st1 st2 where s: "step db y (Some sm) st l1 = Inr st1"
      "run_lines db y (Some sm) st1 mids = Inr st2" "step db y (Some sm) st2 l2 = Inr st'"
    by (auto simp: run_lines_append split: sum.splits)
  from header_step[OF h1 s(1)] have "last_day st1 = Some d1" by blast
  with run_no_header_frame[OF mid s(2)] have l: "last_day st2 = Some d1" by simp
  from day_header_nonneg[OF h2] lt have "d1 \<noteq> 0" by simp
  with l lt have "working_month (Some sm) (last_day st2) d2 =
                    Inr (Some (if sm + 1 > 12 then 1 else sm + 1))"
    by (simp add: working_month_def)
  with header_step[OF h2 s(3)]
  obtain dt ws where r: "resolve_date y (Some (if sm + 1 > 12 then 1 else sm + 1)) d2 = Inr (dt, ws)"
      "current_date st' = Some dt"
    by auto
  from resolve_date_month[OF r(1)] r show ?thesis by blast
qed

text \<open>The theorem at the headers \<open>28 Sat\<close> and \<open>1 Sun\<close> of December, a comment between them.\<close>

theorem rollover_after_smaller_day_witness:
  "day_header ascii_ucd (strip (str ''28 Sat'')) = Some (Inr (28, [])) \<and>
   day_header ascii_ucd (strip (str ''Lunch'')) = None \<and>
   day_header ascii_ucd (strip (str ''1 Sun'')) = Some (Inr (1, [])) \<and>
   (1::int) < 28 \<and>
   run_lines ascii_ucd 2026 (Some 12) fresh (str ''28 Sat'' # [str ''Lunch''] @ [str ''1 Sun'']) =
     Inr \<lparr>current_date = Some \<lparr>dt_year = 2026, dt_month = 1, dt_day = 1\<rparr>, last_day = Some 1,
          events = [\<lparr>Subject = str ''Lunch'',
                    Start_Date = \<lparr>dt_year = 2026, dt_month = 12, dt_day = 28\<rparr>,
                    Start_Time = [], End_Date = None, End_Time = [],
                    All_Day_Event = str ''True'', Description = [], Location = []\<rparr>],
          ui = []\<rparr> \<and>
   (\<exists>dt ws. resolve_date 2026 (Some 1) 1 = Inr (dt, ws) \<and> dt_year dt = 2026 \<and> dt_month dt = 1)"
proof -
  have h1: "day_header ascii_ucd (strip (str ''28 Sat'')) = Some (Inr (28, []))"
    by (simp add: ev)
  have m: "day_header ascii_ucd (strip (str ''Lunch'')) = None"
    by (simp add: ev)
  then have mid: "\<forall>l \<in> set [str ''Lunch'']. day_header ascii_ucd (strip l) = None"
    by simp
  have h2: "day_header ascii_ucd (strip (str ''1 Sun'')) = Some (Inr (1, []))"
    by (simp add: ev)
  have lt: "(1::int) < 28" by simp
  have run: "run_lines ascii_ucd 2026 (Some 12) fresh (str ''28 Sat'' # [str ''Lunch''] @ [str ''1 Sun'']) =
     Inr \<lparr>current_date = Some \<lparr>dt_year = 2026, dt_month = 1, dt_day = 1\<rparr>, last_day = Some 1,
          events = [\<lparr>Subject = str ''Lunch'',
                    Start_Date = \<lparr>dt_year = 2026, dt_month = 12, dt_day = 28\<rparr>,
                    Start_Time = [], End_Date = None, End_Time = [],
                    All_Day_Event = str ''True'', Description = [], Location = []\<rparr>],
          ui = []\<rparr>"
    by (simp add: fresh_def ev)
  have v: "valid_date 2026 1 1" by (simp add: ev)
  have c: "\<exists>dt ws. resolve_date 2026 (Some 1) 1 = Inr (dt, ws) \<and> dt_year dt = 2026 \<and> dt_month dt = 1"
    using rollover_after_smaller_day[OF h1 mid h2 lt run] v by auto
  from h1 m h2 lt run c show ?thesis by (intro conjI)
qed

text \<open>
  The claim as it stands fails: after the header of day 30 in January 2026, the header of
  day 29 is given February, the 29th of February 2026 is no date, and the resolved date
  is the 1st of March: the resolved month is the start month plus two.
\<close>

theorem rollover_into_february_counterexample:
  "day_header ascii_ucd (strip (str ''30 Fri'')) = Some (Inr (30, [])) \<and>
   day_header ascii_ucd (strip (str ''29 Sat Game'')) = Some (Inr (29, str ''Game'')) \<and>
   (29::int) < 30 \<and>
   parse_schedule ascii_ucd None (str ''Jan 2026\<newline>30 Fri\<newline>29 Sat Game'') 2026 =
     Inr ([\<lparr>Subject = str ''Game'',
            Start_Date = \<lparr>dt_year = 2026, dt_month = 3, dt_day = 1\<rparr>,
            Start_Time = [], End_Date = None, End_Time = [],
            All_Day_Event = str ''True'', Description = [], Location = []\<rparr>],
          [ShowWarning 2 29 2026 \<lparr>dt_year = 2026, dt_month = 3, dt_day = 1\<rparr>]) \<and>
   dt_month \<lparr>dt_year = 2026, dt_month = 3, dt_day = 1\<rparr> \<noteq> 1 + 1"
  by (simp add: ev)

text \<open>
  C6. Every event that \<open>parse_schedule\<close> produces has the field \<open>All Day Event\<close> equal to
  \<open>True\<close> exactly when its start time is empty, and an end date exactly when its end time
  is not empty.
\<close>

theorem all_day_iff_no_start_time:
  assumes "parse_schedule db answer text y = Inr (evs, u)"
  shows "\<forall>e \<in> set evs.
           (All_Day_Event e = str ''True'' \<longleftrightarrow> Start_Time e = []) \<and>
           (End_Date e \<noteq> None \<longleftrightarrow> End_Time e \<noteq> [])"
proof (rule parse_schedule_inv[OF _ assms], intro allI impI)
  fix cur item ev
  assume "make_event db cur item = Inr ev"
  then show "(All_Day_Event ev = str ''True'' \<longleftrightarrow> Start_Time ev = []) \<and>
             (End_Date ev \<noteq> None \<longleftrightarrow> End_Time ev \<noteq> [])"
    by (auto simp: make_event_def Let_def truthy_def str_def
             split: sum.splits prod.splits option.splits if_splits)
qed

text \<open>The theorem on the scenario of the specification, at its all-day event.\<close>

theorem all_day_iff_no_start_time_witness:
  "parse_schedule ascii_ucd None scenario_text 2026 = Inr ([practice_event, game_event], []) \<and>
   (All_Day_Event game_event = str ''True'') = (Start_Time game_event = []) \<and>
   (End_Date game_event \<noteq> None) = (End_Time game_event \<noteq> []) \<and>
   (All_Day_Event practice_event = str ''True'') = (Start_Time practice_event = []) \<and>
   (End_Date practice_event \<noteq> None) = (End_Time practice_event \<noteq> [])"
proof -
  note a = all_day_iff_no_start_time[OF scenario_parse]
  from bspec[OF a, of game_event] bspec[OF a, of practice_event] scenario_parse
  show ?thesis by simp
qed

text \<open>
  C7 (as amended). For every input, every non-empty start time or end time of an event
  is an hour of at least two digits, a colon and a minute of two digits, both padded with
  zeros, with the hour between 0 and 111 and the minute between 0 and 99: the digits
  written in the item, 12 added to the hour for pm. The parser checks neither against
  the clock.
\<close>

theorem times_are_padded_hour_colon_minute:
  assumes ok: "ucd_ok db" and p: "parse_schedule db answer text y = Inr (evs, u)"
  shows "\<forall>e \<in> set evs.
           (Start_Time e \<noteq> [] \<longrightarrow> padded_time (Start_Time e)) \<and>
           (End_Time e \<noteq> [] \<longrightarrow> padded_time (End_Time e))"
proof (rule parse_schedule_inv[OF _ p], intro allI impI)
  fix cur item ev
  assume m: "make_event db cur item = Inr ev"
  from parse_time_range_ok[OF ok, of item] obtain a b where
    r: "parse_time_range db item = Inr (a, b)" "\<forall>s. a = Some s \<longrightarrow> padded_time s"
       "\<forall>s. b = Some s \<longrightarrow> padded_time s"
    by blast
  from m r show "(Start_Time ev \<noteq> [] \<longrightarrow> padded_time (Start_Time ev)) \<and>
                 (End_Time ev \<noteq> [] \<longrightarrow> padded_time (End_Time ev))"
    by (auto simp: make_event_def Let_def truthy_def split: option.splits if_splits)
qed

text \<open>The theorem on the scenario of the specification, at its timed event.\<close>

theorem times_are_padded_hour_colon_minute_witness:
  "ucd_ok ascii_ucd \<and>
   parse_schedule ascii_ucd None scenario_text 2026 = Inr ([practice_event, game_event], []) \<and>
   Start_Time practice_event \<noteq> [] \<and> End_Time practice_event \<noteq> [] \<and>
   padded_time (Start_Time practice_event) \<and> padded_time (End_Time practice_event)"
proof -
  note a = times_are_padded_hour_colon_minute[OF ascii_ucd_ok scenario_parse]
  have n: "Start_Time practice_event \<noteq> []" "End_Time practice_event \<noteq> []"
    by (simp_all add: practice_event_def str_def)
  from bspec[OF a, of practice_event] n
  have "padded_time (Start_Time practice_event)" "padded_time (End_Time practice_event)"
    by simp_all
  with ascii_ucd_ok scenario_parse n show ?thesis by (intro conjI)
qed

text \<open>
  The claim as it stands fails: the item \<open>25:61 Practice\<close> gives the start time
  \<open>25:61\<close>, which is not a clock time.
\<close>

theorem time_out_of_range_counterexample:
  "parse_schedule ascii_ucd None (str ''Jan\<newline>1 Mon 25:61 Practice'') 2026 =
     Inr ([\<lparr>Subject = str ''Practice'',
            Start_Date = \<lparr>dt_year = 2026, dt_month = 1, dt_day = 1\<rparr>,
            Start_Time = str ''25:61'', End_Date = None, End_Time = [],
            All_Day_Event = str ''False'', Description = [], Location = []\<rparr>], []) \<and>
   \<not> hh_mm (str ''25:61'')"
  by (simp add: ev hh_mm_def)

text \<open>
  C8. For every input text, the empty text included, and every integer year,
  \<open>parse_schedule\<close> returns its events and raises nothing. The code does not: the empty
  text has no first line, so \<open>lines[0]\<close> raises \<open>IndexError\<close>; with the year 0 the
  first \<open>datetime\<close> raises \<open>ValueError\<close>, which is caught, and the handler's own
  \<open>datetime(year, month, 28)\<close> raises it again, outside any handler; and when the month
  prompt is cancelled the month is \<open>None\<close> and the first day header raises \<open>TypeError\<close>.
\<close>

theorem parse_schedule_raises:
  "parse_schedule db answer [] y = Inl IndexError \<and>
   parse_schedule db answer (str ''Jan\<newline>1 Mon'') 0 = Inl ValueError \<and>
   parse_schedule db None (str ''Schedule\<newline>1 Mon'') 2026 = Inl TypeError"
  by (simp add: ev)

text \<open>
  C9 (as amended). The start month is the number of the three-letter month abbreviation
  with which the first line of the input begins, blanks stripped, whether or not that
  line is empty; the month prompt is opened exactly when the first line does not begin
  with one, and its answer is then the start month.
\<close>

theorem start_month_from_first_line:
  assumes "splitlines text = line0 # rest"
  shows "parse_schedule db answer text y =
           (case run_lines db y
                   (case index_of (take 3 (strip line0)) month_names 1 of
                      Some m \<Rightarrow> Some m | None \<Rightarrow> answer)
                   \<lparr>current_date = None, last_day = None, events = [],
                    ui = (case index_of (take 3 (strip line0)) month_names 1 of
                            Some m \<Rightarrow> [] | None \<Rightarrow> [AskInteger])\<rparr>
                   (line0 # rest) of
              Inl e \<Rightarrow> Inl e
            | Inr st \<Rightarrow> Inr (events st, ui st)) \<and>
         (\<forall>evs u. parse_schedule db answer text y = Inr (evs, u) \<longrightarrow>
            (AskInteger \<in> set u \<longleftrightarrow> index_of (take 3 (strip line0)) month_names 1 = None))"
proof -
  note eq = parse_schedule_unfold[OF assms, of db answer y]
  have "AskInteger \<in> set u \<longleftrightarrow> index_of (take 3 (strip line0)) month_names 1 = None"
    if "parse_schedule db answer text y = Inr (evs, u)" for evs u
  proof -
    from that obtain st where st: "run_lines db y
           (case index_of (take 3 (strip line0)) month_names 1 of
              Some m \<Rightarrow> Some m | None \<Rightarrow> answer)
           \<lparr>current_date = None, last_day = None, events = [],
            ui = (case index_of (take 3 (strip line0)) month_names 1 of
                    Some m \<Rightarrow> [] | None \<Rightarrow> [AskInteger])\<rparr>
           (line0 # rest) = Inr st" "u = ui st"
      unfolding eq by (auto split: sum.splits)
    from run_lines_prompt[OF st(1)] st(2) show ?thesis
      by (auto split: option.splits)
  qed
  with eq show ?thesis by blast
qed

text \<open>The theorem on the scenario of the specification, whose first line is \<open>Jan 2026\<close>.\<close>

theorem start_month_from_first_line_witness:
  "splitlines scenario_text =
     [str ''Jan 2026'', str ''23 Mon 10am-11am Practice'', str ''24 Tue  Game 7pm''] \<and>
   parse_schedule ascii_ucd None scenario_text 2026 = Inr ([practice_event, game_event], []) \<and>
   index_of (take 3 (strip (str ''Jan 2026''))) month_names 1 = Some 1 \<and>
   (AskInteger \<in> set []) = (index_of (take 3 (strip (str ''Jan 2026''))) month_names 1 = None)"
proof -
  note a = conjunct2[OF start_month_from_first_line[OF scenario_lines, of ascii_ucd None 2026]]
  have i: "index_of (take 3 (strip (str ''Jan 2026''))) month_names 1 = Some 1"
    by (simp add: ev)
  from a scenario_parse
  have "(AskInteger \<in> set []) = (index_of (take 3 (strip (str ''Jan 2026''))) month_names 1 = None)"
    by blast
  with scenario_lines scenario_parse i show ?thesis by (intro conjI)
qed

text \<open>
  The claim as it stands fails: in a text whose first line is empty, the first line that
  is not empty is \<open>Jan 2026\<close>, and yet the prompt is opened and its answer 7 is the month
  of the events.
\<close>

theorem month_prompt_counterexample:
  "first_nonempty_line (str ''\<newline>Jan 2026\<newline>5 Mon Practice'') = Some (str ''Jan 2026'') \<and>
   parse_schedule ascii_ucd (Some 7) (str ''\<newline>Jan 2026\<newline>5 Mon Practice'') 2026 =
     Inr ([\<lparr>Subject = str ''Practice'',
            Start_Date = \<lparr>dt_year = 2026, dt_month = 7, dt_day = 5\<rparr>,
            Start_Time = [], End_Date = None, End_Time = [],
            All_Day_Event = str ''True'', Description = [], Location = []\<rparr>],
          [AskInteger])"
  by (simp add: ev first_nonempty_line_def)

text \<open>
  C10 (as amended). For every input, the month with which the date of a day header is
  built is the start month, or the start month plus one (12 wrapping to 1), never more.
  It is computed from the start month at every header, whatever the headers before it: it
  is the start month plus one exactly when the header's day number is less than the day
  number of the header before it (and that one is not 0), and the start month again at
  the next header whose day number is not less than its predecessor's. The resolved date
  has the year given to the parser and that month, except when the day is not valid for
  it and it is February of a year that is not a leap year: then the date correction gives
  the 1st of March, which is the start month plus two after a rollover from January.
\<close>

theorem header_month_start_or_next:
  assumes "day_header db (strip l) = Some (Inr (day, trailing))"
    and "step db y (Some sm) st l = Inr st'"
  shows "\<exists>mo dt ws.
           mo = (if (\<exists>p. last_day st = Some p \<and> p \<noteq> 0 \<and> day < p)
                 then (if sm + 1 > 12 then 1 else sm + 1) else sm) \<and>
           (mo = sm \<or> mo = sm + 1 \<or> (sm + 1 > 12 \<and> mo = 1)) \<and>
           resolve_date y (Some mo) day = Inr (dt, ws) \<and>
           current_date st' = Some dt \<and> last_day st' = Some day \<and>
           dt_year dt = y \<and>
           dt_month dt = (if \<not> valid_date y mo day \<and> mo = 2 \<and> \<not> is_leap y then 3 else mo)"
proof -
  define mo where "mo = (if (\<exists>p. last_day st = Some p \<and> p \<noteq> 0 \<and> day < p)
                 then (if sm + 1 > 12 then 1 else sm + 1) else sm)"
  have w: "working_month (Some sm) (last_day st) day = Inr (Some mo)"
    by (auto simp: working_month_def mo_def split: option.splits)
  from header_step[OF assms] w obtain dt ws where
    r: "resolve_date y (Some mo) day = Inr (dt, ws)" "current_date st' = Some dt"
       "last_day st' = Some day"
    by auto
  have "mo = sm \<or> mo = sm + 1 \<or> (sm + 1 > 12 \<and> mo = 1)"
    by (auto simp: mo_def)
  with r resolve_date_month[OF r(1)] mo_def show ?thesis by blast
qed

text \<open>
  The theorem at the header \<open>2 Mon\<close> of a December schedule, after a header of day 1 that
  had rolled over to January: the month is December again.
\<close>

theorem header_month_start_or_next_witness:
  "day_header ascii_ucd (strip (str ''2 Mon'')) = Some (Inr (2, [])) \<and>
   step ascii_ucd 2026 (Some 12)
     \<lparr>current_date = Some \<lparr>dt_year = 2026, dt_month = 1, dt_day = 1\<rparr>, last_day = Some 1,
      events = [], ui = []\<rparr> (str ''2 Mon'') =
     Inr \<lparr>current_date = Some \<lparr>dt_year = 2026, dt_month = 12, dt_day = 2\<rparr>, last_day = Some 2,
          events = [], ui = []\<rparr> \<and>
   (\<exists>dt ws. resolve_date 2026 (Some 12) 2 = Inr (dt, ws) \<and>
      Some \<lparr>dt_year = 2026, dt_month = 12, dt_day = 2\<rparr> = Some dt)"
proof -
  have h: "day_header ascii_ucd (strip (str ''2 Mon'')) = Some (Inr (2, []))"
    by (simp add: ev)
  have s: "step ascii_ucd 2026 (Some 12)
     \<lparr>current_date = Some \<lparr>dt_year = 2026, dt_month = 1, dt_day = 1\<rparr>, last_day = Some 1,
      events = [], ui = []\<rparr> (str ''2 Mon'') =
     Inr \<lparr>current_date = Some \<lparr>dt_year = 2026, dt_month = 12, dt_day = 2\<rparr>, last_day = Some 2,
          events = [], ui = []\<rparr>"
    by (simp add: ev)
  have c: "\<exists>dt ws. resolve_date 2026 (Some 12) 2 = Inr (dt, ws) \<and>
      Some \<lparr>dt_year = 2026, dt_month = 12, dt_day = 2\<rparr> = Some dt"
    using header_month_start_or_next[OF h s] by auto
  from h s c show ?thesis by (intro conjI)
qed

text \<open>
  The claim as it stands fails: in a schedule of January 2026 the header of day 30 after
  the header of day 31 is given February, and its resolved date, with its event, is the
  1st of March: neither the start month nor the start month plus one.
\<close>

theorem resolved_month_two_ahead_counterexample:
  "parse_schedule ascii_ucd None (str ''Jan\<newline>31 Sat A\<newline>30 Sun B'') 2026 =
     Inr ([\<lparr>Subject = str ''A'',
            Start_Date = \<lparr>dt_year = 2026, dt_month = 1, dt_day = 31\<rparr>,
            Start_Time = [], End_Date = None, End_Time = [],
            All_Day_Event = str ''True'', Description = [], Location = []\<rparr>,
           \<lparr>Subject = str ''B'',
            Start_Date = \<lparr>dt_year = 2026, dt_month = 3, dt_day = 1\<rparr>,
            Start_Time = [], End_Date = None, End_Time = [],
            All_Day_Event = str ''True'', Description = [], Location = []\<rparr>],
          [ShowWarning 2 30 2026 \<lparr>dt_year = 2026, dt_month = 3, dt_day = 1\<rparr>]) \<and>
   dt_month \<lparr>dt_year = 2026, dt_month = 3, dt_day = 1\<rparr> \<noteq> 1 \<and>
   dt_month \<lparr>dt_year = 2026, dt_month = 3, dt_day = 1\<rparr> \<noteq> 1 + 1"
  by (simp add: ev)

end
